theory Spec2Isabelle
  imports Complex_Main
begin

section \<open>Floating-point values\<close>

text \<open>
  The arrays of \<^verbatim>\<open>perclearn/utils.py\<close> hold numpy \<^verbatim>\<open>float64\<close> values. A value is
  a real number or one of the three IEEE special values; a zero carries no sign.
  The finite \<^verbatim>\<open>float64\<close> values are the reals \<open>m * 2 ^ e\<close> with \<open>|m| < 2 ^ 53\<close> and
  \<open>- 1074 \<le> e \<le> 971\<close> (the subnormal ones included). Every arithmetic operation
  computes the exact real result and rounds it to the nearest \<^verbatim>\<open>float64\<close>, a tie going to
  the value with the even significand, as IEEE 754 prescribes: a result of magnitude
  \<open>2 ^ 1024 - 2 ^ 970\<close> or more becomes an infinity, one too small becomes subnormal or
  zero. The special values follow IEEE 754, which is what numpy computes: no operation
  on arrays raises, a division by zero yields an infinity or NaN.
  A value \<open>Fin x\<close> is a \<^verbatim>\<open>float64\<close> when \<open>x\<close> is in \<open>doubles\<close>; every operation returns
  such a value or a special value, whatever its arguments.
  Python and numpy integers are unbounded integers.
\<close>

datatype f64 = Fin real | PInf | NInf | NaN

definition doubles :: "real set" where
  "doubles = (\<lambda>(m, e). real_of_int m * 2 powi e) ` ({- (2 ^ 53) <..< 2 ^ 53} \<times> {- 1074 .. 971})"

text \<open>Rounding to nearest, ties to even. The grid is the finite values together with
  \<open>2 ^ 1024\<close> and \<open>- 2 ^ 1024\<close>, which stand for the two infinities (an overflowing result
  is rounded to one of them):
  \<open>b\<close> and \<open>a\<close> are the grid values next to \<open>x\<close>, below and above; in a tie, \<open>b / (a - b)\<close>
  is the significand of \<open>b\<close>.\<close>

definition huge :: real where
  "huge = 2 ^ 1024"

definition grid :: "real set" where
  "grid = insert huge (insert (- huge) doubles)"

definition below :: "real \<Rightarrow> real" where
  "below x = Max {g \<in> grid. g \<le> x}"

definition above :: "real \<Rightarrow> real" where
  "above x = Min {g \<in> grid. x \<le> g}"

definition nearest :: "real \<Rightarrow> real" where
  "nearest x =
     (if huge \<le> x then huge
      else if x \<le> - huge then - huge
      else let b = below x; a = above x
           in if x - b < a - x then b
              else if a - x < x - b then a
              else if even \<lfloor>b / (a - b)\<rfloor> then b else a)"

definition rnd :: "real \<Rightarrow> f64" where
  "rnd x = (if nearest x = huge then PInf else if nearest x = - huge then NInf else Fin (nearest x))"

text \<open>The conversion of an integer to \<^verbatim>\<open>float64\<close>.\<close>

definition float_of_int :: "int \<Rightarrow> f64" where
  "float_of_int k = rnd (of_int k)"

text \<open>The unit roundoff \<open>2 ^ - 53\<close> and the least normal value \<open>2 ^ - 1022\<close>, for the
  statements about rounding errors.\<close>

definition ulp_half :: real where
  "ulp_half = 2 powi (- 53)"

definition tiny :: real where
  "tiny = 2 powi (- 1022)"

fun fneg :: "f64 \<Rightarrow> f64" where
  "fneg (Fin x) = Fin (- x)"
| "fneg PInf = NInf"
| "fneg NInf = PInf"
| "fneg NaN = NaN"

fun fadd :: "f64 \<Rightarrow> f64 \<Rightarrow> f64" where
  "fadd NaN _ = NaN"
| "fadd _ NaN = NaN"
| "fadd (Fin x) (Fin y) = rnd (x + y)"
| "fadd PInf NInf = NaN"
| "fadd NInf PInf = NaN"
| "fadd PInf _ = PInf"
| "fadd _ PInf = PInf"
| "fadd NInf _ = NInf"
| "fadd _ NInf = NInf"

definition fsub :: "f64 \<Rightarrow> f64 \<Rightarrow> f64" where
  "fsub a b = fadd a (fneg b)"

fun fmul :: "f64 \<Rightarrow> f64 \<Rightarrow> f64" where
  "fmul NaN _ = NaN"
| "fmul _ NaN = NaN"
| "fmul (Fin x) (Fin y) = rnd (x * y)"
| "fmul (Fin x) PInf = (if x = 0 then NaN else if 0 < x then PInf else NInf)"
| "fmul (Fin x) NInf = (if x = 0 then NaN else if 0 < x then NInf else PInf)"
| "fmul PInf (Fin y) = (if y = 0 then NaN else if 0 < y then PInf else NInf)"
| "fmul NInf (Fin y) = (if y = 0 then NaN else if 0 < y then NInf else PInf)"
| "fmul PInf PInf = PInf"
| "fmul PInf NInf = NInf"
| "fmul NInf PInf = NInf"
| "fmul NInf NInf = PInf"

fun fdiv :: "f64 \<Rightarrow> f64 \<Rightarrow> f64" where
  "fdiv NaN _ = NaN"
| "fdiv _ NaN = NaN"
| "fdiv (Fin x) (Fin y) =
     (if y \<noteq> 0 then rnd (x / y)
      else if x = 0 then NaN
      else if 0 < x then PInf else NInf)"
| "fdiv (Fin x) PInf = Fin 0"
| "fdiv (Fin x) NInf = Fin 0"
| "fdiv PInf (Fin y) = (if 0 \<le> y then PInf else NInf)"
| "fdiv NInf (Fin y) = (if 0 \<le> y then NInf else PInf)"
| "fdiv PInf PInf = NaN"
| "fdiv PInf NInf = NaN"
| "fdiv NInf PInf = NaN"
| "fdiv NInf NInf = NaN"

text \<open>Comparison \<^verbatim>\<open><=\<close>: false as soon as one side is NaN.\<close>

fun fle :: "f64 \<Rightarrow> f64 \<Rightarrow> bool" where
  "fle NaN _ = False"
| "fle _ NaN = False"
| "fle (Fin x) (Fin y) = (x \<le> y)"
| "fle NInf _ = True"
| "fle _ PInf = True"
| "fle PInf _ = False"
| "fle _ NInf = False"

fun fsqrt :: "f64 \<Rightarrow> f64" where
  "fsqrt (Fin x) = (if 0 \<le> x then rnd (sqrt x) else NaN)"
| "fsqrt PInf = PInf"
| "fsqrt NInf = NaN"
| "fsqrt NaN = NaN"

fun fcos :: "f64 \<Rightarrow> f64" where
  "fcos (Fin x) = rnd (cos x)"
| "fcos _ = NaN"

fun fsin :: "f64 \<Rightarrow> f64" where
  "fsin (Fin x) = rnd (sin x)"
| "fsin _ = NaN"

text \<open>\<^verbatim>\<open>np.power\<close>, with the special cases of the IEEE \<^verbatim>\<open>pow\<close>. The results of
  \<^verbatim>\<open>np.cos\<close>, \<^verbatim>\<open>np.sin\<close> and \<^verbatim>\<open>np.power\<close> are taken as the exact results rounded (the
  library's may differ from that in the last place).\<close>

fun fpow :: "f64 \<Rightarrow> f64 \<Rightarrow> f64" where
  "fpow x (Fin y) =
     (if y = 0 then Fin 1
      else case x of
        NaN \<Rightarrow> NaN
      | Fin a \<Rightarrow>
          (if 0 < a then rnd (a powr y)
           else if a = 0 then (if 0 < y then Fin 0 else PInf)
           else if y \<in> \<int> then rnd (a powi \<lfloor>y\<rfloor>)
           else NaN)
      | PInf \<Rightarrow> (if 0 < y then PInf else Fin 0)
      | NInf \<Rightarrow>
          (if y < 0 then Fin 0
           else if y \<in> \<int> \<and> odd \<lfloor>y\<rfloor> then NInf else PInf))"
| "fpow x NaN = (if x = Fin 1 then Fin 1 else NaN)"
| "fpow x PInf =
     (case x of
        NaN \<Rightarrow> NaN
      | Fin a \<Rightarrow> (if \<bar>a\<bar> = 1 then Fin 1 else if \<bar>a\<bar> < 1 then Fin 0 else PInf)
      | _ \<Rightarrow> PInf)"
| "fpow x NInf =
     (case x of
        NaN \<Rightarrow> NaN
      | Fin a \<Rightarrow> (if \<bar>a\<bar> = 1 then Fin 1 else if \<bar>a\<bar> < 1 then PInf else Fin 0)
      | _ \<Rightarrow> Fin 0)"

fun isinf :: "f64 \<Rightarrow> bool" where
  "isinf PInf = True"
| "isinf NInf = True"
| "isinf _ = False"

text \<open>\<^verbatim>\<open>np.minimum\<close> and \<^verbatim>\<open>np.maximum\<close> of two values: NaN propagates.\<close>

fun fmin :: "f64 \<Rightarrow> f64 \<Rightarrow> f64" where
  "fmin NaN _ = NaN"
| "fmin _ NaN = NaN"
| "fmin a b = (if fle a b then a else b)"

fun fmax :: "f64 \<Rightarrow> f64 \<Rightarrow> f64" where
  "fmax NaN _ = NaN"
| "fmax _ NaN = NaN"
| "fmax a b = (if fle a b then b else a)"

text \<open>
  Complex values (\<^verbatim>\<open>complex128\<close>) are pairs of a real and an imaginary part; sum and
  product are the textbook formulas on the parts.
\<close>

type_synonym c128 = "f64 \<times> f64"

definition cadd :: "c128 \<Rightarrow> c128 \<Rightarrow> c128" where
  "cadd z w = (fadd (fst z) (fst w), fadd (snd z) (snd w))"

definition cmul :: "c128 \<Rightarrow> c128 \<Rightarrow> c128" where
  "cmul z w =
     (fsub (fmul (fst z) (fst w)) (fmul (snd z) (snd w)),
      fadd (fmul (fst z) (snd w)) (fmul (snd z) (fst w)))"

definition of_real_c :: "f64 \<Rightarrow> c128" where
  "of_real_c x = (x, Fin 0)"

section \<open>Array values and the numpy operations the program uses\<close>

datatype error = ValueError | TypeError | MaskError

text \<open>
  The value of a two-dimensional array: its shape and its elements in row-major order,
  so that element \<open>(i, j)\<close> of an array with \<open>c\<close> columns is \<open>elems ! (i * c + j)\<close>.
  Array expressions that create a new array nothing else refers to are computed on
  these values.
\<close>

record 'a arr =
  shape :: "nat \<times> nat"
  elems :: "'a list"

definition size_of :: "'a arr \<Rightarrow> nat" where
  "size_of a = fst (shape a) * snd (shape a)"

definition tabulate :: "nat \<times> nat \<Rightarrow> (nat \<Rightarrow> nat \<Rightarrow> 'a) \<Rightarrow> 'a arr" where
  "tabulate sh f =
     \<lparr>shape = sh, elems = map (\<lambda>k. f (k div snd sh) (k mod snd sh)) [0..<fst sh * snd sh]\<rparr>"

definition amap :: "('a \<Rightarrow> 'b) \<Rightarrow> 'a arr \<Rightarrow> 'b arr" where
  "amap f a = \<lparr>shape = shape a, elems = map f (elems a)\<rparr>"

text \<open>Broadcasting: two axis lengths are compatible when they are equal or one of them
  is 1; an axis of length 1 is stretched by repeating its only index.\<close>

definition bdim :: "nat \<Rightarrow> nat \<Rightarrow> nat option" where
  "bdim a b = (if a = b then Some a else if a = 1 then Some b else if b = 1 then Some a else None)"

definition bshape :: "nat \<times> nat \<Rightarrow> nat \<times> nat \<Rightarrow> (nat \<times> nat) option" where
  "bshape p q =
     (case (bdim (fst p) (fst q), bdim (snd p) (snd q)) of
        (Some r, Some c) \<Rightarrow> Some (r, c)
      | _ \<Rightarrow> None)"

definition stretched :: "'a arr \<Rightarrow> nat \<Rightarrow> nat \<Rightarrow> 'a" where
  "stretched a i j =
     elems a ! ((if fst (shape a) = 1 then 0 else i) * snd (shape a)
                + (if snd (shape a) = 1 then 0 else j))"

definition broadcast_to :: "'a arr \<Rightarrow> nat \<times> nat \<Rightarrow> 'a arr" where
  "broadcast_to a sh = tabulate sh (stretched a)"

definition binop :: "('a \<Rightarrow> 'b \<Rightarrow> 'c) \<Rightarrow> 'a arr \<Rightarrow> 'b arr \<Rightarrow> error + 'c arr" where
  "binop f a b =
     (case bshape (shape a) (shape b) of
        None \<Rightarrow> Inl ValueError
      | Some sh \<Rightarrow> Inr (tabulate sh (\<lambda>i j. f (stretched a i j) (stretched b i j))))"

text \<open>\<^verbatim>\<open>a.T\<close>.\<close>

definition transpose_arr :: "'a arr \<Rightarrow> 'a arr" where
  "transpose_arr a =
     tabulate (snd (shape a), fst (shape a)) (\<lambda>i j. elems a ! (j * snd (shape a) + i))"

text \<open>\<^verbatim>\<open>repmat(xs, m, n)\<close> of a one-dimensional \<open>xs\<close>: \<open>xs\<close> is taken as one row, tiled
  \<open>n\<close> times along the row and \<open>m\<close> times down.\<close>

definition repmat :: "'a list \<Rightarrow> nat \<Rightarrow> nat \<Rightarrow> 'a arr" where
  "repmat xs m n =
     \<lparr>shape = (m, n * length xs), elems = concat (replicate m (concat (replicate n xs)))\<rparr>"

text \<open>\<^verbatim>\<open>np.reshape\<close>: the number of elements must not change.\<close>

definition reshape :: "'a arr \<Rightarrow> nat \<times> nat \<Rightarrow> error + 'a arr" where
  "reshape a sh =
     (if fst sh * snd sh = size_of a then Inr \<lparr>shape = sh, elems = elems a\<rparr>
      else Inl ValueError)"

text \<open>A basic slice \<^verbatim>\<open>[start:stop]\<close> of an axis of length \<open>n\<close>: a negative bound counts
  from the end, both bounds are clipped to the axis, and the slice is the index range
  \<open>[lo, hi)\<close>, empty when the bounds cross.\<close>

definition slice_bounds :: "nat \<Rightarrow> int \<Rightarrow> int \<Rightarrow> nat \<times> nat" where
  "slice_bounds n start stop =
     (let lo = (if start < 0 then max (start + int n) 0 else min start (int n));
          hi = (if stop < 0 then max (stop + int n) 0 else min stop (int n))
      in (nat lo, nat (max lo hi)))"

text \<open>Masked arrays (\<^verbatim>\<open>np.ma\<close>): the data and a mask of the same shape, True where an
  element is masked.\<close>

record 'a marray =
  mdata :: "'a arr"
  mmask :: "bool arr"

text \<open>\<^verbatim>\<open>np.ma.array(d, mask=m)\<close>: a mask of another shape is resized when it has one
  element and reshaped when it has as many elements as the data; any other mask is
  refused.\<close>

definition ma_array :: "'a arr \<Rightarrow> bool arr \<Rightarrow> error + 'a marray" where
  "ma_array d m =
     (if shape m = shape d then Inr \<lparr>mdata = d, mmask = m\<rparr>
      else if size_of m = 1
        then Inr \<lparr>mdata = d,
                  mmask = \<lparr>shape = shape d, elems = replicate (size_of d) (hd (elems m))\<rparr>\<rparr>
      else if size_of m = size_of d
        then Inr \<lparr>mdata = d, mmask = \<lparr>shape = shape d, elems = elems m\<rparr>\<rparr>
      else Inl MaskError)"

text \<open>\<^verbatim>\<open>ma <= x\<close> with a scalar: the data are compared everywhere, the mask is kept.\<close>

definition ma_le :: "f64 marray \<Rightarrow> f64 \<Rightarrow> bool marray" where
  "ma_le a x = \<lparr>mdata = amap (\<lambda>d. fle d x) (mdata a), mmask = mmask a\<rparr>"

text \<open>\<^verbatim>\<open>ma[idx] = x\<close> with a masked boolean index of the same shape and a scalar:
  the data of the index select the elements that are set, and these are unmasked.\<close>

definition ma_setitem :: "'a marray \<Rightarrow> bool marray \<Rightarrow> 'a \<Rightarrow> 'a marray" where
  "ma_setitem a idx x =
     \<lparr>mdata = \<lparr>shape = shape (mdata a),
               elems = map2 (\<lambda>b d. if b then x else d) (elems (mdata idx)) (elems (mdata a))\<rparr>,
      mmask = \<lparr>shape = shape (mmask a),
               elems = map2 (\<lambda>b m. if b then False else m) (elems (mdata idx)) (elems (mmask a))\<rparr>\<rparr>"

text \<open>\<^verbatim>\<open>a + ma\<close> with a plain array on the left (\<^verbatim>\<open>MaskedArray.__radd__\<close>, which is
  \<^verbatim>\<open>np.ma.add(a, ma)\<close>): the data are added everywhere, then the result is reverted to
  the left operand where the mask is set. The left operand has no mask.\<close>

definition ma_radd :: "f64 arr \<Rightarrow> f64 marray \<Rightarrow> error + f64 marray" where
  "ma_radd a b =
     (case binop fadd a (mdata b) of
        Inl e \<Rightarrow> Inl e
      | Inr result \<Rightarrow>
          let m = broadcast_to (mmask b) (shape result);
              da = broadcast_to a (shape result)
          in Inr \<lparr>mdata = \<lparr>shape = shape result,
                          elems = map2 (\<lambda>mk (d, r). if mk then d else r)
                                    (elems m) (zip (elems da) (elems result))\<rparr>,
                  mmask = m\<rparr>)"

section \<open>The store of array buffers, array objects, the random generator\<close>

text \<open>
  A numpy array is an object that refers to a buffer; several objects (views) may share
  one buffer, and in-place operators and item assignment write to the buffer. The
  program state holds the buffers by address, the next unused address, and the draws of
  the process-wide generator \<^verbatim>\<open>np.random\<close> that are not yet consumed.
\<close>

record state =
  bufs :: "nat \<Rightarrow> f64 list"
  fresh :: nat
  rng :: "nat \<Rightarrow> nat"

text \<open>A C-contiguous two-dimensional array object: \<open>rows \<times> cols\<close> values of the
  buffer \<open>buf\<close>, in row-major order from position \<open>off\<close>.\<close>

record ndarray =
  buf :: nat
  off :: nat
  rows :: nat
  cols :: nat

definition alloc :: "state \<Rightarrow> f64 list \<Rightarrow> nat \<times> state" where
  "alloc s xs = (fresh s, s\<lparr>bufs := (bufs s)(fresh s := xs), fresh := Suc (fresh s)\<rparr>)"

definition values_of :: "state \<Rightarrow> ndarray \<Rightarrow> f64 list" where
  "values_of s a = take (rows a * cols a) (drop (off a) (bufs s (buf a)))"

definition load :: "state \<Rightarrow> ndarray \<Rightarrow> f64 arr" where
  "load s a = \<lparr>shape = (rows a, cols a), elems = values_of s a\<rparr>"

text \<open>A new array object holding the value \<open>v\<close>.\<close>

definition new_array :: "state \<Rightarrow> f64 arr \<Rightarrow> ndarray \<times> state" where
  "new_array s v =
     (let (d, s1) = alloc s (elems v)
      in (\<lparr>buf = d, off = 0, rows = fst (shape v), cols = snd (shape v)\<rparr>, s1))"

text \<open>An in-place operator (\<^verbatim>\<open>+=\<close>, \<^verbatim>\<open>/=\<close>) with a scalar, on a whole buffer.\<close>

definition inplace :: "(f64 \<Rightarrow> f64) \<Rightarrow> nat \<Rightarrow> state \<Rightarrow> state" where
  "inplace f d s = s\<lparr>bufs := (bufs s)(d := map f (bufs s d))\<rparr>"

text \<open>\<^verbatim>\<open>np.min\<close> and \<^verbatim>\<open>np.max\<close> of all values: a zero-size array has no minimum, the
  call raises ValueError.\<close>

definition np_min :: "f64 list \<Rightarrow> error + f64" where
  "np_min xs = (case xs of [] \<Rightarrow> Inl ValueError | x # r \<Rightarrow> Inr (foldl fmin x r))"

definition np_max :: "f64 list \<Rightarrow> error + f64" where
  "np_max xs = (case xs of [] \<Rightarrow> Inl ValueError | x # r \<Rightarrow> Inr (foldl fmax x r))"

text \<open>Element \<open>(i, j)\<close> of an array object, and the window \<^verbatim>\<open>a[r0:r1, c0:c1]\<close> of an
  array object, given by its two index ranges: reading it,
  and assigning a value to it. The value assigned is broadcast to the window's shape
  (an axis of the value must have the window's length or length 1), and only the
  positions of the window are written.\<close>

definition entry :: "state \<Rightarrow> ndarray \<Rightarrow> nat \<Rightarrow> nat \<Rightarrow> f64" where
  "entry s a i j = bufs s (buf a) ! (off a + i * cols a + j)"

definition read_window :: "state \<Rightarrow> ndarray \<Rightarrow> nat \<times> nat \<Rightarrow> nat \<times> nat \<Rightarrow> f64 arr" where
  "read_window s a rs cs =
     tabulate (snd rs - fst rs, snd cs - fst cs) (\<lambda>i j. entry s a (fst rs + i) (fst cs + j))"

definition in_window :: "ndarray \<Rightarrow> nat \<times> nat \<Rightarrow> nat \<times> nat \<Rightarrow> nat \<Rightarrow> bool" where
  "in_window a rs cs k =
     (off a \<le> k \<and> fst rs \<le> (k - off a) div cols a \<and> (k - off a) div cols a < snd rs
      \<and> fst cs \<le> (k - off a) mod cols a \<and> (k - off a) mod cols a < snd cs)"

definition write_window ::
  "state \<Rightarrow> ndarray \<Rightarrow> nat \<times> nat \<Rightarrow> nat \<times> nat \<Rightarrow> f64 arr \<Rightarrow> (error + unit) \<times> state" where
  "write_window s a rs cs v =
     (let wr = snd rs - fst rs; wc = snd cs - fst cs
      in if (fst (shape v) = wr \<or> fst (shape v) = 1) \<and> (snd (shape v) = wc \<or> snd (shape v) = 1)
         then (Inr (),
               s\<lparr>bufs := (bufs s)(buf a :=
                    map (\<lambda>k. if in_window a rs cs k
                              then stretched v ((k - off a) div cols a - fst rs)
                                               ((k - off a) mod cols a - fst cs)
                              else bufs s (buf a) ! k)
                        [0..<length (bufs s (buf a))])\<rparr>)
         else (Inl ValueError, s))"

text \<open>The generator: \<^verbatim>\<open>np.random.random(n)\<close> turns each of the next \<open>n\<close> draws into a
  value of \<open>[0, 1)\<close> with 53 random bits; \<^verbatim>\<open>np.random.randint(low, high)\<close> turns the next
  draw into an integer of \<open>[low, high)\<close> and raises ValueError when that range is empty.\<close>

definition random_sample :: "state \<Rightarrow> nat \<Rightarrow> f64 list \<times> state" where
  "random_sample s n =
     (map (\<lambda>k. Fin (real (rng s k mod 2 ^ 53) / 2 ^ 53)) [0..<n],
      s\<lparr>rng := (\<lambda>k. rng s (k + n))\<rparr>)"

definition randint :: "state \<Rightarrow> int \<Rightarrow> int \<Rightarrow> (error + int) \<times> state" where
  "randint s low high =
     (if high \<le> low then (Inl ValueError, s)
      else (Inr (low + int (rng s 0) mod (high - low)), s\<lparr>rng := (\<lambda>k. rng s (Suc k))\<rparr>))"

section \<open>\<^verbatim>\<open>create_2D_noise\<close>\<close>

text \<open>
  \<^verbatim>\<open>np.fft.ifft2\<close> is a library function: the inverse discrete Fourier transform in two
  dimensions, here as the sum of its documentation. It refuses an axis of length 0.
\<close>

definition ifft2 :: "c128 arr \<Rightarrow> error + c128 arr" where
  "ifft2 a =
     (let M = fst (shape a); N = snd (shape a)
      in if M = 0 \<or> N = 0 then Inl ValueError
         else Inr (tabulate (M, N) (\<lambda>p q.
                cmul (of_real_c (rnd (1 / real (M * N))))
                  (foldl cadd (Fin 0, Fin 0)
                     (map (\<lambda>t. cmul (elems a ! t)
                             (rnd (cos (2 * pi * (real (t div N) * real p / real M
                                                  + real (t mod N) * real q / real N))),
                              rnd (sin (2 * pi * (real (t div N) * real p / real M
                                                  + real (t mod N) * real q / real N)))))
                        [0..<M * N])))))"

text \<open>The frequencies along an axis of length \<open>d\<close> (lines 46 to 48 and 54 to 56):
  \<open>0, \<dots>, floor (d / 2)\<close>, then \<open>- (ceil (d / 2) - 1), \<dots>, -1\<close>, each divided by \<open>d\<close>.\<close>

definition freq_axis :: "nat \<Rightarrow> f64 list" where
  "freq_axis d =
     (let list_1 = [0 .. \<lfloor>real d / 2\<rfloor>];
          list_2 = [- (\<lceil>real d / 2\<rceil> - 1) .. - 1]
      in map (\<lambda>k. fdiv (float_of_int k) (float_of_int (int d))) (list_1 @ list_2))"

definition create_2D_noise :: "state \<Rightarrow> nat \<times> nat \<Rightarrow> f64 \<Rightarrow> (error + ndarray) \<times> state" where
  "create_2D_noise s dim_array beta =
     (case reshape (repmat (freq_axis (fst dim_array)) 1 (snd dim_array)) dim_array of
        Inl e \<Rightarrow> (Inl e, s)
      | Inr u0 \<Rightarrow>
     let u = transpose_arr u0
     in case reshape (repmat (freq_axis (snd dim_array)) (fst dim_array) 1) dim_array of
        Inl e \<Rightarrow> (Inl e, s)
      | Inr v \<Rightarrow>
     case binop fadd (amap (\<lambda>x. fpow x (Fin 2)) u) (amap (\<lambda>x. fpow x (Fin 2)) v) of
        Inl e \<Rightarrow> (Inl e, s)
      | Inr uv \<Rightarrow>
     let S_f = amap (\<lambda>x. fpow x (fdiv beta (Fin 2))) uv;
         S_f = amap (\<lambda>x. if isinf x then Fin 0 else x) S_f;
         (draws, s1) = random_sample s (fst dim_array * snd dim_array);
         phi = \<lparr>shape = dim_array, elems = draws\<rparr>;
         phase = amap (\<lambda>p. cadd (of_real_c (fcos (fmul (rnd (2 * pi)) p)))
                            (cmul (Fin 0, Fin 1) (of_real_c (fsin (fmul (rnd (2 * pi)) p))))) phi
     in case binop cmul (amap (\<lambda>x. of_real_c (fpow x (Fin (1 / 2)))) S_f) phase of
        Inl e \<Rightarrow> (Inl e, s1)
      | Inr spectrum \<Rightarrow>
     case ifft2 spectrum of
        Inl e \<Rightarrow> (Inl e, s1)
      | Inr x \<Rightarrow>
     let (r, s2) = new_array s1 (amap fst x)
     in (Inr r, s2))"

section \<open>\<^verbatim>\<open>scale_2D\<close>\<close>

text \<open>
  \<^verbatim>\<open>np.ndarray.flatten\<close> copies the values into a new buffer; the three in-place
  operators then write to that buffer, and \<^verbatim>\<open>np.reshape\<close> returns a view of it.
  \<open>scale_range\<close> is the pair \<open>(lo, hi)\<close>. The result is paired with the state the call
  leaves behind, also when it raises. The argument is an array of floating-point values,
  as its two callers pass it (on an array of an integer type the in-place division would
  raise).
\<close>

definition flatten :: "state \<Rightarrow> ndarray \<Rightarrow> nat \<times> state" where
  "flatten s a = alloc s (values_of s a)"

definition scale_2D :: "state \<Rightarrow> ndarray \<Rightarrow> f64 \<times> f64 \<Rightarrow> (error + ndarray) \<times> state" where
  "scale_2D s data scale_range =
     (let w = rows data; h = cols data;
          (d, s1) = flatten s data
      in case np_min (bufs s1 d) of
           Inl e \<Rightarrow> (Inl e, s1)
         | Inr mn \<Rightarrow>
             let s2 = inplace (\<lambda>x. fadd x (fneg mn)) d s1
             in case np_max (bufs s2 d) of
                  Inl e \<Rightarrow> (Inl e, s2)
                | Inr mx \<Rightarrow>
                    let q = fdiv mx (fsub (snd scale_range) (fst scale_range));
                        s3 = inplace (\<lambda>x. fdiv x q) d s2;
                        s4 = inplace (\<lambda>x. fadd x (fst scale_range)) d s3
                    in (Inr \<lparr>buf = d, off = 0, rows = w, cols = h\<rparr>, s4))"

section \<open>\<^verbatim>\<open>create_composition\<close>\<close>

text \<open>
  \<open>center\<close> is a pair of integers or None, \<open>radius\<close> a number or None. Lines 105 to 108
  replace a None by the centre of the image and by the least distance from the centre to
  an edge. The radius is only used with arrays of \<^verbatim>\<open>float64\<close> (it is compared with the
  distances and stored among them), so it is kept as the \<^verbatim>\<open>float64\<close> it is converted to.
\<close>

definition resolve_center :: "nat \<Rightarrow> nat \<Rightarrow> (int \<times> int) option \<Rightarrow> int \<times> int" where
  "resolve_center w h center =
     (case center of None \<Rightarrow> (\<lfloor>real w / 2\<rfloor>, \<lfloor>real h / 2\<rfloor>) | Some c \<Rightarrow> c)"

definition resolve_radius :: "nat \<Rightarrow> nat \<Rightarrow> int \<times> int \<Rightarrow> f64 option \<Rightarrow> f64" where
  "resolve_radius w h center radius =
     (case radius of
        None \<Rightarrow> float_of_int (min (fst center) (min (snd center)
                                (min (int w - fst center) (int h - snd center))))
      | Some r \<Rightarrow> r)"

text \<open>Lines 110 to 113: \<^verbatim>\<open>np.ogrid[:h, :w]\<close> gives a column \<open>Y\<close> and a row \<open>X\<close>, so the
  distances form an array of shape \<open>(h, w)\<close> whose element \<open>(y, x)\<close> is the distance
  of \<open>(x, y)\<close> from the centre.\<close>

definition dist_from_center :: "nat \<Rightarrow> nat \<Rightarrow> int \<times> int \<Rightarrow> f64 arr" where
  "dist_from_center w h center =
     tabulate (h, w)
       (\<lambda>y x. fsqrt (float_of_int ((int x - fst center)\<^sup>2 + (int y - snd center)\<^sup>2)))"

definition disk_mask :: "nat \<Rightarrow> nat \<Rightarrow> int \<times> int \<Rightarrow> f64 \<Rightarrow> bool arr" where
  "disk_mask w h center radius = amap (\<lambda>d. fle d radius) (dist_from_center w h center)"

text \<open>Lines 102 to 132, up to \<^verbatim>\<open>new_input_image\<close>. \<^verbatim>\<open>circle_image\<close> and \<^verbatim>\<open>out_image\<close>
  are views of \<^verbatim>\<open>input_image\<close>, and \<^verbatim>\<open>.data\<close> is the data of a masked array, whatever
  its mask. \<^verbatim>\<open>out_mask.copy()\<close> is a new array, which \<^verbatim>\<open>scale_2D\<close> receives. The
  values of the two views are those of \<^verbatim>\<open>input_image\<close> before the call of \<^verbatim>\<open>scale_2D\<close>,
  which writes to a buffer of its own only; the background is read after it.\<close>

definition compose_patch ::
  "state \<Rightarrow> ndarray \<Rightarrow> ndarray \<Rightarrow> int \<Rightarrow> int \<Rightarrow> (int \<times> int) option \<Rightarrow> f64 option
   \<Rightarrow> (error + f64 marray) \<times> state" where
  "compose_patch s input_image background_image x_offset y_offset center0 radius0 =
     (let w = rows input_image; h = cols input_image;
          center = resolve_center w h center0;
          radius = resolve_radius w h center radius0;
          mask = disk_mask w h center radius
      in case ma_array (load s input_image) (amap Not mask) of
           Inl e \<Rightarrow> (Inl e, s)
         | Inr circle_image \<Rightarrow>
        case ma_array (load s input_image) mask of
           Inl e \<Rightarrow> (Inl e, s)
         | Inr out_image_ma \<Rightarrow>
        case ma_array (dist_from_center w h center) mask of
           Inl e \<Rightarrow> (Inl e, s)
         | Inr out_mask \<Rightarrow>
        let out_image = mdata out_image_ma;
            out_mask_full = ma_setitem out_mask (ma_le out_mask radius) radius;
            (omf, s1) = new_array s (mdata out_mask_full)
        in case scale_2D s1 omf (Fin 0, Fin 1) of
             (Inl e, s2) \<Rightarrow> (Inl e, s2)
           | (Inr rescaled, s2) \<Rightarrow>
          let dist_from_center_rescaled = load s2 rescaled;
              background_offset =
                read_window s2 background_image
                  (slice_bounds (rows background_image) y_offset (y_offset + int w))
                  (slice_bounds (cols background_image) x_offset (x_offset + int h))
          in case binop fmul background_offset dist_from_center_rescaled of
               Inl e \<Rightarrow> (Inl e, s2)
             | Inr faded \<Rightarrow>
            case binop fadd faded out_image of
               Inl e \<Rightarrow> (Inl e, s2)
             | Inr background_fade \<Rightarrow>
            case ma_radd background_fade circle_image of
               Inl e \<Rightarrow> (Inl e, s2)
             | Inr new_input_image \<Rightarrow> (Inr new_input_image, s2))"

text \<open>Lines 134 to 136: the data of \<^verbatim>\<open>new_input_image\<close> are assigned to the window of
  the background, and the background object itself is returned.\<close>

definition create_composition ::
  "state \<Rightarrow> ndarray \<Rightarrow> ndarray \<Rightarrow> int \<Rightarrow> int \<Rightarrow> (int \<times> int) option \<Rightarrow> f64 option
   \<Rightarrow> (error + ndarray) \<times> state" where
  "create_composition s input_image background_image x_offset y_offset center radius =
     (case compose_patch s input_image background_image x_offset y_offset center radius of
        (Inl e, s2) \<Rightarrow> (Inl e, s2)
      | (Inr new_input_image, s2) \<Rightarrow>
          (case write_window s2 background_image
                  (slice_bounds (rows background_image) y_offset
                     (y_offset + int (rows input_image)))
                  (slice_bounds (cols background_image) x_offset
                     (x_offset + int (cols input_image)))
                  (mdata new_input_image) of
             (Inl e, s3) \<Rightarrow> (Inl e, s3)
           | (Inr u, s3) \<Rightarrow> (Inr background_image, s3)))"

text \<open>A call with keyword arguments left out: the signature's defaults are
  \<^verbatim>\<open>x_offset=0, y_offset=0, center=None, radius=0\<close>. An argument that is passed is a
  \<open>Some\<close> here (so \<open>Some None\<close> is a None that was passed).\<close>

definition create_composition_call ::
  "state \<Rightarrow> ndarray \<Rightarrow> ndarray \<Rightarrow> int option \<Rightarrow> int option \<Rightarrow> (int \<times> int) option option
   \<Rightarrow> f64 option option \<Rightarrow> (error + ndarray) \<times> state" where
  "create_composition_call s input_image background_image x_offset y_offset center radius =
     create_composition s input_image background_image
       (case x_offset of None \<Rightarrow> 0 | Some x \<Rightarrow> x)
       (case y_offset of None \<Rightarrow> 0 | Some y \<Rightarrow> y)
       (case center of None \<Rightarrow> None | Some c \<Rightarrow> c)
       (case radius of None \<Rightarrow> Some (Fin 0) | Some r \<Rightarrow> r)"

section \<open>\<^verbatim>\<open>rotate_image\<close> and \<^verbatim>\<open>create_new_dataset\<close>\<close>

text \<open>
  \<^verbatim>\<open>skimage.transform.rotate\<close> is a library function and a parameter \<open>sk_rotate\<close> of the
  model: it maps the value of an image and an angle to the value of a new image.
\<close>

definition rotate_image ::
  "(f64 arr \<Rightarrow> int \<Rightarrow> f64 arr) \<Rightarrow> state \<Rightarrow> ndarray \<Rightarrow> int option \<Rightarrow> (error + ndarray) \<times> state" where
  "rotate_image sk_rotate s img angle =
     (case (case angle of None \<Rightarrow> randint s 0 360 | Some a \<Rightarrow> (Inr a, s)) of
        (Inl e, s1) \<Rightarrow> (Inl e, s1)
      | (Inr a, s1) \<Rightarrow>
          let (r, s2) = new_array s1 (sk_rotate (load s1 img) a)
          in (Inr r, s2))"

text \<open>A call \<^verbatim>\<open>rotate_image(image, k1=v1, ...)\<close>: the function's parameters are
  \<^verbatim>\<open>image\<close> and \<^verbatim>\<open>angle\<close>; a keyword that is no parameter, or that names the parameter
  already given by position, raises TypeError.\<close>

definition rotate_image_call ::
  "(f64 arr \<Rightarrow> int \<Rightarrow> f64 arr) \<Rightarrow> state \<Rightarrow> ndarray \<Rightarrow> (string \<times> int option) list
   \<Rightarrow> (error + ndarray) \<times> state" where
  "rotate_image_call sk_rotate s img kwargs =
     (if list_ex (\<lambda>kw. fst kw \<noteq> ''angle'') kwargs then (Inl TypeError, s)
      else rotate_image sk_rotate s img
             (case map_of kwargs ''angle'' of None \<Rightarrow> None | Some a \<Rightarrow> a))"

text \<open>\<^verbatim>\<open>new_dataset[i,:] = v\<close> with a one-dimensional \<open>v\<close>: \<open>v\<close> must have the length of
  the row, or length 1.\<close>

definition assign_row :: "state \<Rightarrow> ndarray \<Rightarrow> nat \<Rightarrow> f64 list \<Rightarrow> (error + unit) \<times> state" where
  "assign_row s a i v =
     (if length v = cols a \<or> length v = 1
      then (Inr (),
            s\<lparr>bufs := (bufs s)(buf a :=
                 map (\<lambda>k. if off a + i * cols a \<le> k \<and> k < off a + (i + 1) * cols a
                           then v ! (if length v = 1 then 0 else k - (off a + i * cols a))
                           else bufs s (buf a) ! k)
                     [0..<length (bufs s (buf a))])\<rparr>)
      else (Inl ValueError, s))"

text \<open>The call of lines 162 to 165.\<close>

definition composition_of_row ::
  "state \<Rightarrow> ndarray \<Rightarrow> ndarray \<Rightarrow> (int \<times> int) list \<Rightarrow> int \<Rightarrow> (error + ndarray) \<times> state" where
  "composition_of_row s img noise_bg offsets rand_offset =
     create_composition s img noise_bg
       (fst (offsets ! nat rand_offset)) (snd (offsets ! nat rand_offset)) None None"

text \<open>The body of the loop (lines 155 to 167) for row \<open>i\<close>. \<open>offsets\<close> is a list of
  pairs; \<open>rotate_on\<close> tells whether \<^verbatim>\<open>rotate\<close> is not False; \<open>degree\<close> is an integer or None.
  \<open>im_x\<close> is \<^verbatim>\<open>int(np.sqrt(n))\<close> for the length \<open>n\<close> of a row, the integer part of its square
  root (a row of an array in memory has far fewer than \<open>2 ^ 52\<close> values, and below that
  the rounded square root has the integer part of the exact one).\<close>

definition dataset_row ::
  "(f64 arr \<Rightarrow> int \<Rightarrow> f64 arr) \<Rightarrow> ndarray \<Rightarrow> ndarray \<Rightarrow> (int \<times> int) list \<Rightarrow> bool \<Rightarrow> int option
   \<Rightarrow> nat \<Rightarrow> state \<Rightarrow> (error + unit) \<times> state" where
  "dataset_row sk_rotate dataset new_dataset offsets rotate_on degree i s =
     (let n = cols dataset;
          im_x = nat \<lfloor>sqrt (real n)\<rfloor>;
          num_offsets = length offsets
      in if im_x * im_x = n then
        case (if rotate_on
              then rotate_image_call sk_rotate s
                     \<lparr>buf = buf dataset, off = off dataset + i * n, rows = im_x, cols = im_x\<rparr>
                     [(''rot'', degree)]
              else (Inr \<lparr>buf = buf dataset, off = off dataset + i * n, rows = im_x, cols = im_x\<rparr>,
                    s)) of
          (Inl e, s1) \<Rightarrow> (Inl e, s1)
        | (Inr img, s1) \<Rightarrow>
       (case create_2D_noise s1 (56, 56) (Fin (- 1)) of
          (Inl e, s2) \<Rightarrow> (Inl e, s2)
        | (Inr noise, s2) \<Rightarrow>
       (case scale_2D s2 noise (Fin 0, Fin 255) of
          (Inl e, s3) \<Rightarrow> (Inl e, s3)
        | (Inr noise_bg, s3) \<Rightarrow>
       (case randint s3 0 (int num_offsets) of
          (Inl e, s4) \<Rightarrow> (Inl e, s4)
        | (Inr rand_offset, s4) \<Rightarrow>
       (case composition_of_row s4 img noise_bg offsets rand_offset of
          (Inl e, s5) \<Rightarrow> (Inl e, s5)
        | (Inr result, s5) \<Rightarrow>
            let (f, s6) = flatten s5 result
            in assign_row s6 new_dataset i (bufs s6 f)))))
      else (Inl ValueError, s))"

fun dataset_rows ::
  "(f64 arr \<Rightarrow> int \<Rightarrow> f64 arr) \<Rightarrow> ndarray \<Rightarrow> ndarray \<Rightarrow> (int \<times> int) list \<Rightarrow> bool \<Rightarrow> int option
   \<Rightarrow> nat list \<Rightarrow> state \<Rightarrow> (error + unit) \<times> state" where
  "dataset_rows sk_rotate dataset new_dataset offsets rotate_on degree [] s = (Inr (), s)"
| "dataset_rows sk_rotate dataset new_dataset offsets rotate_on degree (i # rest) s =
     (case dataset_row sk_rotate dataset new_dataset offsets rotate_on degree i s of
        (Inl e, s1) \<Rightarrow> (Inl e, s1)
      | (Inr u, s1) \<Rightarrow> dataset_rows sk_rotate dataset new_dataset offsets rotate_on degree rest s1)"

definition create_new_dataset ::
  "(f64 arr \<Rightarrow> int \<Rightarrow> f64 arr) \<Rightarrow> state \<Rightarrow> ndarray \<Rightarrow> (int \<times> int) list \<Rightarrow> bool \<Rightarrow> int option
   \<Rightarrow> (error + ndarray) \<times> state" where
  "create_new_dataset sk_rotate s dataset offsets rotate_on degree =
     (let m = rows dataset; n = cols dataset;
          (new_dataset, s1) = new_array s \<lparr>shape = (m, n * 4), elems = replicate (m * (n * 4)) (Fin 0)\<rparr>
      in case dataset_rows sk_rotate dataset new_dataset offsets rotate_on degree [0..<m] s1 of
           (Inl e, s2) \<Rightarrow> (Inl e, s2)
         | (Inr u, s2) \<Rightarrow> (Inr new_dataset, s2))"

section \<open>Functions for the statements\<close>

text \<open>The values \<^verbatim>\<open>scale_2D\<close> leaves in its new buffer, as a function of the values
  \<open>xs\<close> of its argument (not empty) and of the range.\<close>

definition scaled :: "f64 list \<Rightarrow> f64 \<times> f64 \<Rightarrow> f64 list" where
  "scaled xs rg =
     (let mn = foldl fmin (hd xs) (tl xs);
          ys = map (\<lambda>x. fadd x (fneg mn)) xs;
          mx = foldl fmax (hd ys) (tl ys);
          q = fdiv mx (fsub (snd rg) (fst rg))
      in map (\<lambda>x. fadd (fdiv x q) (fst rg)) ys)"

text \<open>The value that \<^verbatim>\<open>scale_2D\<close> gives to an entry \<open>x\<close> when no step overflows, as a
  function of the minimum \<open>mn\<close> of the field, of the divisor \<open>q\<close> of line 88 and of the
  lower end \<open>lo\<close> of the range: the three in-place operations, each rounded.\<close>

definition rescale :: "real \<Rightarrow> real \<Rightarrow> real \<Rightarrow> real \<Rightarrow> real" where
  "rescale mn q lo x = nearest (nearest (nearest (x - mn) / q) + lo)"

text \<open>The array that \<^verbatim>\<open>create_composition\<close> passes to \<^verbatim>\<open>scale_2D\<close>: the distances,
  with those of the disk replaced by the radius.\<close>

definition fade_input :: "nat \<Rightarrow> nat \<Rightarrow> int \<times> int \<Rightarrow> f64 \<Rightarrow> f64 arr" where
  "fade_input w h center radius =
     mdata (ma_setitem \<lparr>mdata = dist_from_center w h center, mmask = disk_mask w h center radius\<rparr>
              (ma_le \<lparr>mdata = dist_from_center w h center, mmask = disk_mask w h center radius\<rparr> radius)
              radius)"

section \<open>Inputs for the examples\<close>

text \<open>A state with three array buffers: a constant one, read as a \<open>2 \<times> 2\<close> image or as
  a dataset of one row of length 4, a \<open>2 \<times> 2\<close> background and a \<open>3 \<times> 3\<close> background.\<close>

definition ex_state :: state where
  "ex_state =
     \<lparr>bufs = (\<lambda>_. [])
        (0 := [Fin 1, Fin 1, Fin 1, Fin 1],
         1 := [Fin 10, Fin 20, Fin 30, Fin 40],
         2 := [Fin 10, Fin 20, Fin 30, Fin 40, Fin 50, Fin 60, Fin 70, Fin 80, Fin 90]),
      fresh = 3, rng = (\<lambda>_. 0)\<rparr>"

definition ex_wide :: ndarray where
  "ex_wide = \<lparr>buf = 2, off = 0, rows = 3, cols = 3\<rparr>"

definition ex_image :: ndarray where
  "ex_image = \<lparr>buf = 0, off = 0, rows = 2, cols = 2\<rparr>"

definition ex_background :: ndarray where
  "ex_background = \<lparr>buf = 1, off = 0, rows = 2, cols = 2\<rparr>"

definition ex_dataset :: ndarray where
  "ex_dataset = \<lparr>buf = 0, off = 0, rows = 1, cols = 4\<rparr>"

text \<open>A \<open>1 \<times> 2\<close> field whose two values are the least and the greatest power of two
  that \<^verbatim>\<open>float64\<close> has at the top of its range, \<open>- 2 ^ 1023\<close> and \<open>2 ^ 1023\<close>.\<close>

definition big :: real where
  "big = 2 ^ 1023"

definition ex_extreme_state :: state where
  "ex_extreme_state =
     \<lparr>bufs = (\<lambda>_. [])(0 := [Fin (- big), Fin big]), fresh = 1, rng = (\<lambda>_. 0)\<rparr>"

definition ex_extreme :: ndarray where
  "ex_extreme = \<lparr>buf = 0, off = 0, rows = 1, cols = 2\<rparr>"

section \<open>Rounding to the nearest \<^verbatim>\<open>float64\<close>\<close>

lemma finite_doubles: "finite doubles"
  by (simp add: doubles_def)

lemma finite_grid: "finite grid"
  by (simp add: grid_def finite_doubles)

lemma huge_pos: "0 < huge"
  by (simp add: huge_def)

lemma doubles_I: "\<bar>m\<bar> < 2 ^ 53 \<Longrightarrow> - 1074 \<le> e \<Longrightarrow> e \<le> 971 \<Longrightarrow> real_of_int m * 2 powi e \<in> doubles"
  unfolding doubles_def by (rule image_eqI [where x = "(m, e)"]) auto

lemma doubles_bound: assumes "x \<in> doubles" shows "\<bar>x\<bar> < huge"
proof -
  obtain m e where x: "x = real_of_int m * 2 powi e" and m: "- (2 ^ 53) < m" "m < 2 ^ 53"
    and e: "e \<le> 971"
    using assms by (auto simp: doubles_def)
  have "\<bar>real_of_int m\<bar> < 2 ^ 53"
  proof -
    have "\<bar>m\<bar> < 2 ^ 53" using m by linarith
    then have "real_of_int \<bar>m\<bar> < real_of_int (2 ^ 53)" by (simp only: of_int_less_iff)
    then show ?thesis by simp
  qed
  moreover have "(2::real) powi e \<le> 2 powi 971"
    using e by (intro power_int_increasing) auto
  moreover have "(0::real) < 2 powi e" by simp
  ultimately have "\<bar>real_of_int m\<bar> * 2 powi e < 2 ^ 53 * 2 powi 971"
    by (intro mult_less_le_imp_less) auto
  also have "(2::real) ^ 53 * 2 powi 971 = huge"
    by (simp add: huge_def power_int_def flip: power_add)
  finally show ?thesis by (simp add: x abs_mult)
qed

lemma grid_bound: assumes "g \<in> grid" shows "\<bar>g\<bar> \<le> huge"
proof -
  consider "g = huge" | "g = - huge" | "g \<in> doubles" using assms by (auto simp: grid_def)
  then show ?thesis
  proof cases
    case 3
    then have "\<bar>g\<bar> < huge" by (rule doubles_bound)
    then show ?thesis by simp
  qed (use huge_pos in auto)
qed

lemma huge_in_grid: "huge \<in> grid" "- huge \<in> grid"
  by (simp_all add: grid_def)



lemma below_props:
  assumes "- huge \<le> x"
  shows "below x \<in> grid" "below x \<le> x" "\<And>g. g \<in> grid \<Longrightarrow> g \<le> x \<Longrightarrow> g \<le> below x"
proof -
  have fin: "finite {g \<in> grid. g \<le> x}" using finite_grid by simp
  have ne: "{g \<in> grid. g \<le> x} \<noteq> {}" using assms huge_in_grid by auto
  have "below x \<in> {g \<in> grid. g \<le> x}" unfolding below_def by (rule Max_in [OF fin ne])
  then show "below x \<in> grid" "below x \<le> x" by auto
  show "g \<le> below x" if "g \<in> grid" "g \<le> x" for g
    unfolding below_def using that fin by (intro Max_ge) auto
qed

lemma above_props:
  assumes "x \<le> huge"
  shows "above x \<in> grid" "x \<le> above x" "\<And>g. g \<in> grid \<Longrightarrow> x \<le> g \<Longrightarrow> above x \<le> g"
proof -
  have fin: "finite {g \<in> grid. x \<le> g}" using finite_grid by simp
  have ne: "{g \<in> grid. x \<le> g} \<noteq> {}" using assms huge_in_grid by auto
  have "above x \<in> {g \<in> grid. x \<le> g}" unfolding above_def by (rule Min_in [OF fin ne])
  then show "above x \<in> grid" "x \<le> above x" by auto
  show "above x \<le> g" if "g \<in> grid" "x \<le> g" for g
    unfolding above_def using that fin by (intro Min_le) auto
qed

lemma nearest_inner:
  assumes "- huge < x" "x < huge"
  shows "nearest x =
     (if x - below x < above x - x then below x
      else if above x - x < x - below x then above x
      else if even \<lfloor>below x / (above x - below x)\<rfloor> then below x else above x)"
  using assms by (simp add: nearest_def Let_def)

lemma nearest_cases:
  assumes "- huge < x" "x < huge"
  shows "(nearest x = below x \<and> x - below x \<le> above x - x)
       \<or> (nearest x = above x \<and> above x - x \<le> x - below x)"
  unfolding nearest_inner [OF assms] by auto

lemma nearest_in_grid: "nearest x \<in> grid"
proof (cases "- huge < x \<and> x < huge")
  case True
  then show ?thesis
    using nearest_cases [of x] below_props(1) [of x] above_props(1) [of x] by auto
next
  case False
  then show ?thesis using huge_in_grid huge_pos by (auto simp: nearest_def)
qed

lemma nearest_exact: assumes "g \<in> grid" shows "nearest g = g"
proof (cases "- huge < g \<and> g < huge")
  case True
  have "below g = g" using below_props [of g] assms True by (intro antisym) auto
  moreover have "above g = g" using above_props [of g] assms True by (intro antisym) auto
  ultimately show ?thesis using nearest_cases [of g] True by auto
next
  case False
  then have "g = huge \<or> g = - huge" using grid_bound [OF assms] by auto
  then show ?thesis using huge_pos by (auto simp: nearest_def)
qed

lemma nearest_closest:
  assumes "g \<in> grid"
  shows "\<bar>nearest x - x\<bar> \<le> \<bar>g - x\<bar>"
proof (cases "- huge < x \<and> x < huge")
  case True
  then have x: "- huge \<le> x" "x \<le> huge" by auto
  note b = below_props [OF x(1)] and a = above_props [OF x(2)]
  show ?thesis
  proof (cases "g \<le> x")
    case le: True
    then have "g \<le> below x" using b(3) assms by simp
    then show ?thesis using nearest_cases [of x] True b(2) a(2) le by auto
  next
    case False
    then have "above x \<le> g" using a(3) assms by simp
    then show ?thesis using nearest_cases [of x] True b(2) a(2) False by auto
  qed
next
  case False
  then consider "huge \<le> x" | "x \<le> - huge" by linarith
  then show ?thesis
  proof cases
    case 1
    then have "nearest x = huge" by (simp add: nearest_def)
    then show ?thesis using 1 grid_bound [OF assms] by auto
  next
    case 2
    then have "nearest x = - huge" using huge_pos by (auto simp: nearest_def)
    then show ?thesis using 2 grid_bound [OF assms] by auto
  qed
qed

lemma nearest_mono: assumes "x \<le> y" shows "nearest x \<le> nearest y"
proof -
  have nb: "- huge \<le> nearest z" "nearest z \<le> huge" for z
    using grid_bound [OF nearest_in_grid [of z]] by auto
  consider "huge \<le> y" | "x \<le> - huge" | "- huge < x" "y < huge" by linarith
  then show ?thesis
  proof cases
    case 1
    then have "nearest y = huge" by (simp add: nearest_def)
    then show ?thesis using nb by simp
  next
    case 2
    then have "nearest x = - huge" using huge_pos by (auto simp: nearest_def)
    then show ?thesis using nb by simp
  next
    case 3
    then have x: "- huge < x" "x < huge" and y: "- huge < y" "y < huge" using assms by auto
    note bx = below_props [of x] and ax = above_props [of x]
      and lowy = below_props [of y] and ay = above_props [of y]
    show ?thesis
    proof (cases "above x \<le> below y")
      case True
      have "nearest x \<le> above x" using nearest_cases [OF x] bx(2) ax(2) x by auto
      moreover have "below y \<le> nearest y" using nearest_cases [OF y] lowy(2) ay(2) y by auto
      ultimately show ?thesis using True by linarith
    next
      case False
      have "below y \<le> x"
      proof (rule ccontr)
        assume "\<not> below y \<le> x"
        then have "above x \<le> below y" using ax(3) [of "below y"] lowy(1) x y by auto
        then show False using False by simp
      qed
      then have "below y \<le> below x" using bx(3) [of "below y"] lowy(1) x y by auto
      moreover have "below x \<le> below y" using lowy(3) [of "below x"] bx(1,2) assms x y by auto
      ultimately have b: "below y = below x" by simp
      have "y \<le> above x"
      proof (rule ccontr)
        assume "\<not> y \<le> above x"
        then have "above x \<le> below y" using lowy(3) [of "above x"] ax(1) x y by auto
        then show False using False by simp
      qed
      then have "above y \<le> above x" using ay(3) [of "above x"] ax(1) x y by auto
      moreover have "above x \<le> above y" using ax(3) [of "above y"] ay(1,2) assms x y by auto
      ultimately have a: "above y = above x" by simp
      show ?thesis
      proof (cases "x = y")
        case True
        then show ?thesis by simp
      next
        case False
        then have "x < y" using assms by simp
        then show ?thesis
          using nearest_cases [OF x] nearest_cases [OF y] a b bx(2) ax(2) x by auto
      qed
    qed
  qed
qed


lemma grid_I:
  assumes m: "\<bar>m\<bar> \<le> 2 ^ 53" and e: "- 1074 \<le> e" "e \<le> 971"
  shows "real_of_int m * 2 powi e \<in> grid"
proof (cases "\<bar>m\<bar> < 2 ^ 53")
  case True
  then show ?thesis using doubles_I [OF True e] by (simp add: grid_def)
next
  case False
  then have m': "m = 2 ^ 53 \<or> m = - (2 ^ 53)" using m by linarith
  have split: "(2::real) ^ 53 * 2 powi e = 2 ^ 52 * 2 powi (e + 1)"
    by (simp add: power_int_add)
  show ?thesis
  proof (cases "e = 971")
    case True
    have "(2::real) ^ 53 * 2 powi 971 = huge"
      by (simp add: huge_def power_int_def flip: power_add)
    then show ?thesis using m' True by (auto simp: grid_def)
  next
    case False
    then have e1: "e + 1 \<le> 971" "- 1074 \<le> e + 1" using e by auto
    have "real_of_int (2 ^ 52) * 2 powi (e + 1) \<in> doubles"
      by (rule doubles_I [OF _ e1(2) e1(1)]) simp
    moreover have "real_of_int (- (2 ^ 52)) * 2 powi (e + 1) \<in> doubles"
      by (rule doubles_I [OF _ e1(2) e1(1)]) simp
    moreover have "real_of_int (2 ^ 53) * 2 powi e = real_of_int (2 ^ 52) * 2 powi (e + 1)"
      by (simp add: power_int_add)
    moreover have "real_of_int (- (2 ^ 53)) * 2 powi e = real_of_int (- (2 ^ 52)) * 2 powi (e + 1)"
      by (simp add: power_int_add)
    ultimately have "real_of_int (2 ^ 53) * 2 powi e \<in> doubles"
      "real_of_int (- (2 ^ 53)) * 2 powi e \<in> doubles" by (simp_all only:)
    then have "real_of_int m * 2 powi e \<in> doubles" using m' by (elim disjE) (simp_all only:)
    then show ?thesis by (simp only: grid_def insert_iff) blast
  qed
qed

lemma nearest_err:
  assumes e: "- 1074 \<le> e" "e \<le> 971" and x: "\<bar>x\<bar> < 2 powi (e + 53)"
  shows "\<bar>nearest x - x\<bar> \<le> 2 powi (e - 1)"
proof -
  define p :: real where "p = 2 powi e"
  have p: "0 < p" by (simp add: p_def)
  define m where "m = \<lfloor>x / p\<rfloor>"
  have xb: "\<bar>x\<bar> < 2 ^ 53 * p" using x by (simp add: p_def power_int_add mult.commute)
  have q1: "- (2 ^ 53) < x / p"
  proof -
    have "- (2 ^ 53) * p < x" using xb by linarith
    then show ?thesis using p by (simp add: pos_less_divide_eq)
  qed
  have q2: "x / p < 2 ^ 53"
  proof -
    have "x < 2 ^ 53 * p" using xb by linarith
    then show ?thesis using p by (simp add: pos_divide_less_eq)
  qed
  have lo: "- (2 ^ 53) \<le> m"
  proof -
    have "real_of_int (- (2 ^ 53)) \<le> x / p" using q1 by simp
    then show ?thesis unfolding m_def by (subst le_floor_iff) simp
  qed
  have hi: "m < 2 ^ 53"
  proof -
    have "x / p < real_of_int (2 ^ 53)" using q2 by simp
    then show ?thesis unfolding m_def by (subst floor_less_iff) simp
  qed
  have g1: "real_of_int m * p \<in> grid" unfolding p_def using lo hi e by (intro grid_I) auto
  have g2: "real_of_int (m + 1) * p \<in> grid" unfolding p_def using lo hi e by (intro grid_I) auto
  have le: "real_of_int m * p \<le> x"
    using p by (simp add: m_def flip: pos_le_divide_eq)
  have ge: "x < real_of_int (m + 1) * p"
  proof -
    have "x / p < real_of_int (m + 1)" unfolding m_def by linarith
    then show ?thesis using p by (simp add: pos_divide_less_eq)
  qed
  have d1: "\<bar>nearest x - x\<bar> \<le> x - real_of_int m * p"
    using nearest_closest [OF g1, of x] le by simp
  have d2: "\<bar>nearest x - x\<bar> \<le> real_of_int (m + 1) * p - x"
    using nearest_closest [OF g2, of x] ge by simp
  define g1 where "g1 = real_of_int m * p"
  define g2 where "g2 = real_of_int (m + 1) * p"
  have "g2 - g1 = p" by (simp add: g1_def g2_def algebra_simps)
  have "\<bar>nearest x - x\<bar> + \<bar>nearest x - x\<bar> \<le> (x - g1) + (g2 - x)"
    using d1 d2 unfolding g1_def [symmetric] g2_def [symmetric] by (rule add_mono)
  also have "\<dots> = p" using \<open>g2 - g1 = p\<close> by simp
  finally have "2 * \<bar>nearest x - x\<bar> \<le> p" by simp
  moreover have "2 powi (e - 1) = p / 2" by (simp add: p_def power_int_diff)
  ultimately show ?thesis by simp
qed


lemma binade:
  assumes "tiny \<le> a" "a \<le> 2 ^ 1023"
  shows "\<exists>k. - 1022 \<le> k \<and> k \<le> 1023 \<and> 2 powi k \<le> a \<and> a < 2 powi (k + 1)"
proof -
  define K where "K = {j \<in> {- 1022 .. 1023::int}. 2 powi j \<le> a}"
  have fin: "finite K" unfolding K_def by (rule finite_subset [of _ "{- 1022 .. 1023}"]) auto
  have "- 1022 \<in> K" using assms(1) by (simp add: K_def tiny_def)
  then have ne: "K \<noteq> {}" by blast
  define k where "k = Max K"
  have kK: "k \<in> K" unfolding k_def by (rule Max_in [OF fin ne])
  then have k: "- 1022 \<le> k" "k \<le> 1023" "2 powi k \<le> a" by (auto simp: K_def)
  have "a < 2 powi (k + 1)"
  proof (cases "k = 1023")
    case True
    have "a < 2 ^ 1024" using assms(2) by (rule le_less_trans) simp
    then show ?thesis using True by simp
  next
    case False
    show ?thesis
    proof (rule ccontr)
      assume "\<not> a < 2 powi (k + 1)"
      then have "k + 1 \<in> K" using k False by (auto simp: K_def)
      then have "k + 1 \<le> k" unfolding k_def using fin by (intro Max_ge)
      then show False by simp
    qed
  qed
  then show ?thesis using k by blast
qed

lemma nearest_rel:
  assumes "\<bar>x\<bar> \<le> 2 ^ 1023"
  shows "\<bar>nearest x - x\<bar> \<le> ulp_half * max \<bar>x\<bar> tiny"
proof (cases "\<bar>x\<bar> < tiny")
  case True
  have "\<bar>x\<bar> < 2 powi (- 1074 + 53)"
    using True unfolding tiny_def by (rule less_le_trans) (intro power_int_increasing, auto)
  then have "\<bar>nearest x - x\<bar> \<le> 2 powi (- 1074 - 1)"
    by (intro nearest_err) auto
  also have "(2::real) powi (- 1074 - 1) = ulp_half * tiny"
  proof -
    have "(- 1074 - 1 :: int) = - 53 + - 1022" by simp
    moreover have "(2::real) powi (- 53 + - 1022) = 2 powi (- 53) * 2 powi (- 1022)"
      by (rule power_int_add) simp
    ultimately show ?thesis by (simp only: ulp_half_def tiny_def)
  qed
  also have "\<dots> \<le> ulp_half * max \<bar>x\<bar> tiny"
    by (intro mult_left_mono) (auto simp: ulp_half_def)
  finally show ?thesis .
next
  case False
  then obtain k where k: "- 1022 \<le> k" "k \<le> 1023" "2 powi k \<le> \<bar>x\<bar>" "\<bar>x\<bar> < 2 powi (k + 1)"
    using binade [of "\<bar>x\<bar>"] assms by auto
  have "(k - 52) + 53 = k + 1" by simp
  then have "\<bar>x\<bar> < 2 powi ((k - 52) + 53)" using k(4) by (simp only:)
  then have "\<bar>nearest x - x\<bar> \<le> 2 powi ((k - 52) - 1)"
    using k by (intro nearest_err) auto
  also have "(2::real) powi ((k - 52) - 1) = ulp_half * 2 powi k"
  proof -
    have "(k - 52) - 1 = - 53 + k" by simp
    moreover have "(2::real) powi (- 53 + k) = 2 powi (- 53) * 2 powi k"
      by (rule power_int_add) simp
    ultimately show ?thesis by (simp only: ulp_half_def)
  qed
  also have "\<dots> \<le> ulp_half * max \<bar>x\<bar> tiny"
    using k(3) by (intro mult_left_mono) (auto simp: ulp_half_def)
  finally show ?thesis .
qed

lemma big_in_grid: "2 ^ 1023 \<in> grid" "- (2 ^ 1023) \<in> grid"
proof -
  have "real_of_int (2 ^ 52) * 2 powi 971 \<in> doubles" by (rule doubles_I) auto
  moreover have "real_of_int (- (2 ^ 52)) * 2 powi 971 \<in> doubles" by (rule doubles_I) auto
  moreover have "(2::real) ^ 52 * 2 powi 971 = 2 ^ 1023"
    by (simp add: power_int_def flip: power_add)
  ultimately show "2 ^ 1023 \<in> grid" "- (2 ^ 1023) \<in> grid" by (auto simp: grid_def)
qed

lemma nearest_bounded:
  assumes "\<bar>x\<bar> \<le> 2 ^ 1023" shows "\<bar>nearest x\<bar> \<le> 2 ^ 1023"
proof -
  have "nearest x \<le> nearest (2 ^ 1023)" using assms by (intro nearest_mono) auto
  moreover have "nearest (- (2 ^ 1023)) \<le> nearest x" using assms by (intro nearest_mono) auto
  ultimately show ?thesis using nearest_exact [OF big_in_grid(1)] nearest_exact [OF big_in_grid(2)]
    by auto
qed

lemma rnd_finite: assumes "\<bar>x\<bar> \<le> 2 ^ 1023" shows "rnd x = Fin (nearest x)"
proof -
  have "\<bar>nearest x\<bar> \<le> 2 ^ 1023" using assms by (rule nearest_bounded)
  moreover have "(2::real) ^ 1023 < huge" by (simp add: huge_def)
  ultimately have "nearest x \<noteq> huge" "nearest x \<noteq> - huge" by auto
  then show ?thesis by (simp add: rnd_def)
qed

lemma rnd_exact: assumes "x \<in> doubles" shows "rnd x = Fin x"
proof -
  have "nearest x = x" using assms by (intro nearest_exact) (simp add: grid_def)
  moreover have "\<bar>x\<bar> < huge" using assms by (rule doubles_bound)
  ultimately show ?thesis by (auto simp: rnd_def)
qed

lemma of_int_doubles: "\<bar>n\<bar> < 2 ^ 53 \<Longrightarrow> real_of_int n \<in> doubles"
  using doubles_I [of n 0] by simp

lemma rnd_of_int: "\<bar>n\<bar> < 2 ^ 53 \<Longrightarrow> rnd (real_of_int n) = Fin (real_of_int n)"
  by (intro rnd_exact of_int_doubles)

lemma rnd_0 [simp]: "rnd 0 = Fin 0"
  using rnd_of_int [of 0] by simp

lemma rnd_1 [simp]: "rnd 1 = Fin 1"
  using rnd_of_int [of 1] by simp

lemma rnd_numeral [simp]: "numeral k < (2::int) ^ 53 \<Longrightarrow> rnd (numeral k) = Fin (numeral k)"
  using rnd_of_int [of "numeral k"] by simp

lemma rnd_neg_numeral [simp]:
  "numeral k < (2::int) ^ 53 \<Longrightarrow> rnd (- numeral k) = Fin (- numeral k)"
  using rnd_of_int [of "- numeral k"] by simp


lemma rnd_lower:
  assumes g: "g \<in> doubles" and le: "g \<le> x"
  shows "rnd x = PInf \<or> (\<exists>r. rnd x = Fin r \<and> g \<le> r)"
proof -
  have "nearest g \<le> nearest x" using le by (rule nearest_mono)
  moreover have "nearest g = g" using g by (intro nearest_exact) (simp add: grid_def)
  moreover have "- huge < g" using doubles_bound [OF g] by auto
  ultimately show ?thesis by (auto simp: rnd_def)
qed

lemma one_in_doubles: "1 \<in> doubles"
  using of_int_doubles [of 1] by simp

lemma float_of_int_small: "\<bar>k\<bar> < 2 ^ 53 \<Longrightarrow> float_of_int k = Fin (of_int k)"
  by (simp add: float_of_int_def rnd_of_int)

lemma sqrt_float_of_int_pos:
  assumes "0 \<le> A"
  shows "fle (fsqrt (float_of_int A)) (Fin 0) \<longleftrightarrow> A = 0"
proof (cases "A = 0")
  case True
  then show ?thesis by (simp add: float_of_int_def)
next
  case False
  then have "1 \<le> real_of_int A" using assms by simp
  then consider "float_of_int A = PInf" | r where "float_of_int A = Fin r" "1 \<le> r"
    using rnd_lower [OF one_in_doubles, of "real_of_int A"] by (auto simp: float_of_int_def)
  then have "\<not> fle (fsqrt (float_of_int A)) (Fin 0)"
  proof cases
    case 1
    then show ?thesis by simp
  next
    case 2
    then have "1 \<le> sqrt r" by simp
    then have "rnd (sqrt r) = PInf \<or> (\<exists>t. rnd (sqrt r) = Fin t \<and> 1 \<le> t)"
      by (rule rnd_lower [OF one_in_doubles])
    then show ?thesis using 2 by auto
  qed
  then show ?thesis using False by simp
qed

lemma quarter_in_doubles: "1 / 4 \<in> doubles" "5 / 4 \<in> doubles" "1 / 2 \<in> doubles" "3 / 2 \<in> doubles"
proof -
  have "real_of_int 1 * 2 powi (- 2) \<in> doubles" by (rule doubles_I) auto
  then show "1 / 4 \<in> doubles" by (simp add: power_int_minus)
  have "real_of_int 5 * 2 powi (- 2) \<in> doubles" by (rule doubles_I) auto
  then show "5 / 4 \<in> doubles" by (simp add: power_int_minus)
  have "real_of_int 1 * 2 powi (- 1) \<in> doubles" by (rule doubles_I) auto
  then show "1 / 2 \<in> doubles" by (simp add: power_int_minus)
  have "real_of_int 3 * 2 powi (- 1) \<in> doubles" by (rule doubles_I) auto
  then show "3 / 2 \<in> doubles" by (simp add: power_int_minus)
qed

lemma nearest_between:
  assumes "a \<in> doubles" "b \<in> doubles" "a \<le> x" "x \<le> b"
  shows "a \<le> nearest x" "nearest x \<le> b" "rnd x = Fin (nearest x)"
proof -
  have ea: "nearest a = a" and eb: "nearest b = b"
    using assms by (simp_all add: nearest_exact grid_def)
  show a: "a \<le> nearest x" using nearest_mono [OF assms(3)] ea by simp
  show b: "nearest x \<le> b" using nearest_mono [OF assms(4)] eb by simp
  have "\<bar>a\<bar> < huge" "\<bar>b\<bar> < huge" using assms by (simp_all add: doubles_bound)
  then have "nearest x \<noteq> huge" "nearest x \<noteq> - huge" using a b by auto
  then show "rnd x = Fin (nearest x)" by (simp add: rnd_def)
qed

lemma rnd_nearest: "rnd x = Fin (nearest x) \<Longrightarrow> rnd (nearest x) = Fin (nearest x)"
  using nearest_exact [OF nearest_in_grid, of x] by (auto simp: rnd_def split: if_splits)

lemma sqrt2_bounds: "5 / 4 \<le> sqrt 2" "sqrt 2 \<le> 3 / 2"
proof -
  have "sqrt ((5 / 4)\<^sup>2) \<le> sqrt 2" by (intro real_sqrt_le_mono) (simp add: power2_eq_square)
  then show "5 / 4 \<le> sqrt 2" by simp
  have "sqrt 2 \<le> sqrt ((3 / 2)\<^sup>2)" by (intro real_sqrt_le_mono) (simp add: power2_eq_square)
  then show "sqrt 2 \<le> 3 / 2" by simp
qed

lemma rnd_sqrt2:
  "rnd (sqrt 2) = Fin (nearest (sqrt 2))"
  "\<not> nearest (sqrt 2) \<le> 1"
  "rnd (nearest (sqrt 2) - 1) = Fin (nearest (nearest (sqrt 2) - 1))"
  "\<not> nearest (nearest (sqrt 2) - 1) \<le> 0"
  "nearest (nearest (sqrt 2) - 1) \<noteq> 0"
  "rnd (nearest (nearest (sqrt 2) - 1)) = Fin (nearest (nearest (sqrt 2) - 1))"
  "\<not> nearest (sqrt 2) \<le> 0"
  "nearest (sqrt 2) \<noteq> 0"
  "1 \<le> nearest (sqrt 2)"
  "rnd (nearest (sqrt 2)) = Fin (nearest (sqrt 2))"
proof -
  note a = nearest_between [OF quarter_in_doubles(2,4) sqrt2_bounds]
  show "rnd (sqrt 2) = Fin (nearest (sqrt 2))" by (rule a(3))
  show "\<not> nearest (sqrt 2) \<le> 1" using a(1) by simp
  have "1 / 4 \<le> nearest (sqrt 2) - 1" "nearest (sqrt 2) - 1 \<le> 1 / 2" using a(1,2) by simp_all
  note d = nearest_between [OF quarter_in_doubles(1,3) this]
  show "rnd (nearest (sqrt 2) - 1) = Fin (nearest (nearest (sqrt 2) - 1))" by (rule d(3))
  show "\<not> nearest (nearest (sqrt 2) - 1) \<le> 0" using d(1) by simp
  show "nearest (nearest (sqrt 2) - 1) \<noteq> 0" using d(1) by auto
  show "rnd (nearest (nearest (sqrt 2) - 1)) = Fin (nearest (nearest (sqrt 2) - 1))"
    using d(3) by (rule rnd_nearest)
  show "\<not> nearest (sqrt 2) \<le> 0" "nearest (sqrt 2) \<noteq> 0" "1 \<le> nearest (sqrt 2)"
    using a(1) by auto
  show "rnd (nearest (sqrt 2)) = Fin (nearest (sqrt 2))"
    using a(3) by (rule rnd_nearest)
qed


section \<open>The error of one rounding\<close>

text \<open>A result between the least normal value and \<open>2 ^ 1023\<close> is rounded with a relative
  error of \<open>2 ^ - 53\<close> at most; powers of two in the range are \<^verbatim>\<open>float64\<close> values.\<close>

lemma ulp_half_bounds: "0 < ulp_half" "ulp_half \<le> 1 / 16"
  by (simp_all add: ulp_half_def power_int_minus)

lemma tiny_pos: "0 < tiny"
  by (simp add: tiny_def)

lemma nearest_rel_pos:
  assumes "tiny \<le> x" "x \<le> 2 ^ 1023"
  shows "(1 - ulp_half) * x \<le> nearest x" "nearest x \<le> (1 + ulp_half) * x"
proof -
  have x: "0 < x" using assms(1) tiny_pos by linarith
  have "\<bar>x\<bar> \<le> 2 ^ 1023" using assms(2) x by simp
  then have "\<bar>nearest x - x\<bar> \<le> ulp_half * max \<bar>x\<bar> tiny" by (rule nearest_rel)
  moreover have "max \<bar>x\<bar> tiny = x" using assms(1) x by simp
  ultimately have e: "\<bar>nearest x - x\<bar> \<le> ulp_half * x" by simp
  define p where "p = ulp_half * x"
  have "x - p \<le> nearest x" "nearest x \<le> x + p" using e unfolding p_def [symmetric] by linarith+
  moreover have "(1 - ulp_half) * x = x - p" "(1 + ulp_half) * x = x + p"
    by (simp_all add: algebra_simps p_def)
  ultimately show "(1 - ulp_half) * x \<le> nearest x" "nearest x \<le> (1 + ulp_half) * x"
    by simp_all
qed

lemma nearest_abs:
  assumes "\<bar>x\<bar> \<le> X" "tiny \<le> X" "X \<le> 2 ^ 1023"
  shows "\<bar>nearest x - x\<bar> \<le> ulp_half * X"
proof -
  have "\<bar>x\<bar> \<le> 2 ^ 1023" using assms by linarith
  then have "\<bar>nearest x - x\<bar> \<le> ulp_half * max \<bar>x\<bar> tiny" by (rule nearest_rel)
  also have "\<dots> \<le> ulp_half * X"
    using assms ulp_half_bounds(1) by (intro mult_left_mono) auto
  finally show ?thesis .
qed

lemma pow2_in_doubles:
  assumes "- 1074 \<le> k" "k \<le> 1023"
  shows "2 powi k \<in> doubles"
proof (cases "k \<le> 971")
  case True
  then show ?thesis using doubles_I [of 1 k] assms by simp
next
  case False
  define j where "j = nat (k - 971)"
  have j: "j \<le> 52" "k = 971 + int j" using False assms by (simp_all add: j_def)
  have "(2::int) ^ j \<le> 2 ^ 52" using j(1) by (intro power_increasing) auto
  then have "\<bar>(2::int) ^ j\<bar> < 2 ^ 53" by simp
  then have "real_of_int (2 ^ j) * 2 powi 971 \<in> doubles" by (rule doubles_I) auto
  moreover have "real_of_int (2 ^ j) * 2 powi 971 = 2 powi k"
  proof -
    have "(2::real) powi k = 2 powi 971 * 2 powi (int j)" unfolding j(2) by (rule power_int_add) simp
    then show ?thesis by (simp add: mult.commute)
  qed
  ultimately show ?thesis by simp
qed

lemma nearest_pow2:
  assumes "- 1074 \<le> k" "k \<le> 1023"
  shows "nearest (2 powi k) = 2 powi k"
  using pow2_in_doubles [OF assms] by (intro nearest_exact) (simp add: grid_def)

lemma nearest_ge_pow2:
  assumes "- 1074 \<le> k" "k \<le> 1023" "2 powi k \<le> x"
  shows "2 powi k \<le> nearest x"
  using nearest_mono [OF assms(3)] nearest_pow2 [OF assms(1,2)] by simp

lemma nearest_le_pow2:
  assumes "- 1074 \<le> k" "k \<le> 1023" "x \<le> 2 powi k"
  shows "nearest x \<le> 2 powi k"
  using nearest_mono [OF assms(3)] nearest_pow2 [OF assms(1,2)] by simp

lemma nearest_0: "nearest 0 = 0"
  using rnd_0 by (simp add: rnd_def split: if_splits)

lemma nearest_nonneg: "0 \<le> x \<Longrightarrow> 0 \<le> nearest x"
  using nearest_mono [of 0 x] by (simp add: nearest_0)

lemma nearest_doubles: "\<bar>x\<bar> \<le> 2 ^ 1023 \<Longrightarrow> nearest x \<in> doubles"
proof -
  assume a: "\<bar>x\<bar> \<le> 2 ^ 1023"
  have "\<bar>nearest x\<bar> \<le> 2 ^ 1023" using a by (rule nearest_bounded)
  moreover have "(2::real) ^ 1023 < huge" by (simp add: huge_def)
  ultimately have "nearest x \<noteq> huge" "nearest x \<noteq> - huge" by auto
  then show ?thesis using nearest_in_grid [of x] by (simp add: grid_def)
qed

lemma nearest_id: "x \<in> doubles \<Longrightarrow> nearest x = x"
  by (intro nearest_exact) (simp add: grid_def)

section \<open>What \<^verbatim>\<open>scale_2D\<close> computes on a field of moderate values\<close>

text \<open>When no step overflows, \<^verbatim>\<open>scale_2D\<close> maps every entry \<open>x\<close> to \<open>rescale mn q lo x\<close>,
  a monotone function of \<open>x\<close>; the divisor \<open>q\<close> is the rounded quotient of the rounded extent
  of the field by the rounded width of the range.\<close>

lemma foldl_fmin_Fin: "foldl fmin (Fin x) (map Fin rs) = Fin (Min (set (x # rs)))"
proof -
  have "foldl fmin (Fin x) (map Fin rs) = Fin (fold min rs x)"
    by (induction rs arbitrary: x) (simp_all add: min_def)
  then show ?thesis using Min.set_eq_fold [of x rs] by simp
qed

lemma foldl_fmax_Fin: "foldl fmax (Fin x) (map Fin rs) = Fin (Max (set (x # rs)))"
proof -
  have "foldl fmax (Fin x) (map Fin rs) = Fin (fold max rs x)"
    by (induction rs arbitrary: x) (simp_all add: max_def)
  then show ?thesis using Max.set_eq_fold [of x rs] by simp
qed

lemma foldl_fmin_hd_tl:
  "zs \<noteq> [] \<Longrightarrow> foldl fmin (hd (map Fin zs)) (tl (map Fin zs)) = Fin (Min (set zs))"
  by (cases zs) (simp_all add: foldl_fmin_Fin)

lemma foldl_fmax_hd_tl:
  "zs \<noteq> [] \<Longrightarrow> foldl fmax (hd (map Fin zs)) (tl (map Fin zs)) = Fin (Max (set zs))"
  by (cases zs) (simp_all add: foldl_fmax_Fin)

lemma np_min_Fin: "rs \<noteq> [] \<Longrightarrow> np_min (map Fin rs) = Inr (Fin (Min (set rs)))"
  by (cases rs) (simp_all add: np_min_def foldl_fmin_Fin)

lemma np_max_Fin: "rs \<noteq> [] \<Longrightarrow> np_max (map Fin rs) = Inr (Fin (Max (set rs)))"
  by (cases rs) (simp_all add: np_max_def foldl_fmax_Fin)

lemma values_of_new:
  "length xs \<le> r * c \<Longrightarrow>
   values_of (s\<lparr>bufs := (bufs s)(d := xs), fresh := n\<rparr>) \<lparr>buf = d, off = 0, rows = r, cols = c\<rparr> = xs"
  by (simp add: values_of_def)

lemma length_values_of: "length (values_of s a) \<le> rows a * cols a"
  by (simp add: values_of_def)

lemma rnd_overflow: "huge \<le> x \<Longrightarrow> rnd x = PInf"
  by (simp add: rnd_def nearest_def)

lemma mono_Min_image:
  fixes f :: "real \<Rightarrow> real"
  assumes "mono f" "finite A" "A \<noteq> {}"
  shows "Min (f ` A) = f (Min A)" "Max (f ` A) = f (Max A)"
  using assms by (simp_all add: mono_Min_commute mono_Max_commute)

lemma scaled_core:
  fixes rs :: "real list"
  assumes ne: "rs \<noteq> []"
    and spread: "Max (set rs) - Min (set rs) \<le> 2 ^ 1023"
    and w: "rnd (hi - lo) = Fin w" "w \<noteq> 0"
    and q: "rnd (nearest (Max (set rs) - Min (set rs)) / w) = Fin q" "0 < q"
    and T: "nearest (Max (set rs) - Min (set rs)) / q \<le> 2 ^ 1022"
    and lo: "\<bar>lo\<bar> \<le> 2 ^ 1022"
  defines "G \<equiv> \<lambda>x. nearest (nearest (nearest (x - Min (set rs)) / q) + lo)"
  shows "scaled (map Fin rs) (Fin lo, Fin hi) = map (\<lambda>x. Fin (G x)) rs"
    and "mono G"
    and "\<And>x. x \<in> set rs \<Longrightarrow> G x \<in> doubles"
proof -
  define mn where "mn = Min (set rs)"
  define mx where "mx = Max (set rs)"
  define Y where "Y = (\<lambda>x. nearest (x - mn))"
  define M where "M = nearest (mx - mn)"
  define Z where "Z = (\<lambda>x. nearest (Y x / q))"
  have G: "G = (\<lambda>x. nearest (Z x + lo))" by (simp add: G_def Z_def Y_def mn_def)
  have fin: "finite (set rs)" "set rs \<noteq> {}" using ne by auto
  have mn_le: "mn \<le> x" and le_mx: "x \<le> mx" if "x \<in> set rs" for x
    using that fin by (simp_all add: mn_def mx_def)
  have mx_in: "mx \<in> set rs" unfolding mx_def using fin by (rule Max_in)
  have monoY: "mono Y" unfolding Y_def by (intro monoI nearest_mono) simp
  have monoZ: "mono Z" unfolding Z_def
  proof (intro monoI nearest_mono divide_right_mono)
    fix x y :: real assume "x \<le> y"
    then show "Y x \<le> Y y" using monoY by (simp add: monoD)
    show "0 \<le> q" using q(2) by simp
  qed
  show monoG: "mono G" unfolding G
  proof (intro monoI nearest_mono)
    fix x y :: real assume "x \<le> y"
    then show "Z x + lo \<le> Z y + lo" using monoZ by (simp add: monoD)
  qed
  have Y0: "0 \<le> Y x" and YM: "Y x \<le> M" if "x \<in> set rs" for x
  proof -
    show "0 \<le> Y x" unfolding Y_def using mn_le [OF that] by (intro nearest_nonneg) simp
    show "Y x \<le> M" unfolding Y_def M_def using le_mx [OF that] by (intro nearest_mono) simp
  qed
  have shift: "fadd (Fin x) (fneg (Fin mn)) = Fin (Y x)" if "x \<in> set rs" for x
  proof -
    have "\<bar>x - mn\<bar> \<le> 2 ^ 1023"
      using mn_le [OF that] le_mx [OF that] spread unfolding mn_def mx_def by simp
    then have "rnd (x - mn) = Fin (nearest (x - mn))" by (rule rnd_finite)
    then show ?thesis by (simp add: Y_def)
  qed
  have Zb: "0 \<le> Z x" "Z x \<le> 2 ^ 1022" and quot: "fdiv (Fin (Y x)) (Fin q) = Fin (Z x)"
    if "x \<in> set rs" for x
  proof -
    have a: "0 \<le> Y x / q" using Y0 [OF that] q(2) by simp
    have "Y x / q \<le> M / q" using YM [OF that] q(2) by (intro divide_right_mono) simp_all
    then have b: "Y x / q \<le> 2 ^ 1022" using T unfolding M_def mx_def mn_def by simp
    show "0 \<le> Z x" unfolding Z_def using a by (rule nearest_nonneg)
    have "nearest (Y x / q) \<le> nearest (2 ^ 1022)" using b by (rule nearest_mono)
    moreover have "nearest (2 ^ 1022) = 2 ^ 1022"
      using nearest_pow2 [of 1022] by simp
    ultimately show "Z x \<le> 2 ^ 1022" by (simp add: Z_def)
    have "\<bar>Y x / q\<bar> \<le> 2 ^ 1023" using a b by simp
    then have "rnd (Y x / q) = Fin (nearest (Y x / q))" by (rule rnd_finite)
    then show "fdiv (Fin (Y x)) (Fin q) = Fin (Z x)" using q(2) by (simp add: Z_def)
  qed
  have plus: "fadd (Fin (Z x)) (Fin lo) = Fin (G x)" and Gd: "G x \<in> doubles" if "x \<in> set rs" for x
  proof -
    have "\<bar>Z x + lo\<bar> \<le> 2 ^ 1022 + 2 ^ 1022" using Zb [OF that] lo by linarith
    then have b: "\<bar>Z x + lo\<bar> \<le> 2 ^ 1023" by simp
    then have "rnd (Z x + lo) = Fin (nearest (Z x + lo))" by (rule rnd_finite)
    then show "fadd (Fin (Z x)) (Fin lo) = Fin (G x)" by (simp add: G)
    show "G x \<in> doubles" unfolding G using b by (rule nearest_doubles)
  qed
  show "G x \<in> doubles" if "x \<in> set rs" for x using that by (rule Gd)
  have mnf: "foldl fmin (hd (map Fin rs)) (tl (map Fin rs)) = Fin mn"
    using ne by (simp add: foldl_fmin_hd_tl mn_def)
  have ys: "map (\<lambda>v. fadd v (fneg (Fin mn))) (map Fin rs) = map Fin (map Y rs)"
    using shift by (simp del: fadd.simps fneg.simps)
  have "foldl fmax (hd (map Fin (map Y rs))) (tl (map Fin (map Y rs))) = Fin (Max (set (map Y rs)))"
    using ne by (intro foldl_fmax_hd_tl) simp
  moreover have "Max (set (map Y rs)) = M"
    using mono_Min_image(2) [OF monoY fin] by (simp add: M_def Y_def mx_def)
  ultimately have mxf: "foldl fmax (hd (map Fin (map Y rs))) (tl (map Fin (map Y rs))) = Fin M"
    by simp
  have qf: "fdiv (Fin M) (fsub (Fin hi) (Fin lo)) = Fin q"
    using w q(1) by (simp add: fsub_def M_def mx_def mn_def)
  have res: "map (\<lambda>v. fadd (fdiv v (Fin q)) (Fin lo)) (map Fin (map Y rs)) = map (\<lambda>x. Fin (G x)) rs"
    using quot plus by (simp del: fadd.simps fdiv.simps)
  show "scaled (map Fin rs) (Fin lo, Fin hi) = map (\<lambda>x. Fin (G x)) rs"
    unfolding scaled_def Let_def mnf ys mxf fst_conv snd_conv qf by (rule res)
qed

text \<open>The error analysis of the three operations, on real numbers: \<open>u\<close> is the unit
  roundoff, \<open>W\<close> the width of the range and \<open>w\<close> its rounded value, \<open>M\<close> the rounded extent
  of the field, \<open>q\<close> the rounded divisor and \<open>Z\<close> the rounded quotient \<open>M / q\<close>.\<close>

lemma quotient_bounds:
  fixes u w M q :: real
  assumes u: "0 \<le> u" "u \<le> 1 / 16" and w: "0 < w" and M: "0 < M"
    and q: "(1 - u) * (M / w) \<le> q" "q \<le> (1 + u) * (M / w)"
  shows "0 < q" "w / (1 + u) \<le> M / q" "M / q \<le> w / (1 - u)"
proof -
  have R: "0 < M / w" using w M by simp
  have nz: "1 - u \<noteq> 0" "1 + u \<noteq> 0" "M \<noteq> 0" "w \<noteq> 0" using u M w by auto
  have a: "0 < (1 - u) * (M / w)" using u R by (intro mult_pos_pos) auto
  have b: "0 < (1 + u) * (M / w)" using u R by (intro mult_pos_pos) auto
  show qpos: "0 < q" using a q(1) by linarith
  have "0 < q * ((1 - u) * (M / w))" using qpos a by (rule mult_pos_pos)
  then have "M / q \<le> M / ((1 - u) * (M / w))"
    using q(1) M by (intro divide_left_mono) simp_all
  also have "M / ((1 - u) * (M / w)) = w / (1 - u)" using nz by (simp add: divide_simps)
  finally show "M / q \<le> w / (1 - u)" .
  have "0 < (1 + u) * (M / w) * q" using b qpos by (rule mult_pos_pos)
  then have "M / ((1 + u) * (M / w)) \<le> M / q"
    using q(2) M by (intro divide_left_mono) simp_all
  moreover have "M / ((1 + u) * (M / w)) = w / (1 + u)" using nz by (simp add: divide_simps)
  ultimately show "w / (1 + u) \<le> M / q" by simp
qed

lemma within_factor:
  fixes u c W Z :: real
  assumes "(1 - c * u) * W \<le> Z" "Z \<le> (1 + c * u) * W"
  shows "\<bar>Z - W\<bar> \<le> c * u * W"
proof -
  define p where "p = c * u * W"
  have "(1 - c * u) * W = W - p" "(1 + c * u) * W = W + p" by (simp_all add: p_def algebra_simps)
  then have "W - p \<le> Z" "Z \<le> W + p" using assms by simp_all
  then show ?thesis unfolding p_def [symmetric] by linarith
qed

lemma ratio_bounds:
  fixes u W w M q Z :: real
  assumes u: "0 \<le> u" "u \<le> 1 / 16"
    and W: "0 < W" and M: "0 < M"
    and w: "(1 - u) * W \<le> w" "w \<le> (1 + u) * W"
    and q: "(1 - u) * (M / w) \<le> q" "q \<le> (1 + u) * (M / w)"
    and Z: "(1 - u) * (M / q) \<le> Z" "Z \<le> (1 + u) * (M / q)"
  shows "\<bar>Z - W\<bar> \<le> 4 * u * W"
proof -
  have wpos: "0 < w"
  proof -
    have "0 < (1 - u) * W" using u W by (intro mult_pos_pos) auto
    then show ?thesis using w(1) by linarith
  qed
  note T = quotient_bounds [OF u wpos M q]
  have up: "(1 + u) * (1 + u) \<le> (1 + 4 * u) * (1 - u)"
  proof -
    have "0 \<le> u * (1 - 5 * u)" using u by (intro mult_nonneg_nonneg) auto
    then show ?thesis by (simp add: algebra_simps)
  qed
  have low: "(1 - 4 * u) * (1 + u) \<le> (1 - u) * (1 - u)"
  proof -
    have "0 \<le> u * (1 + 5 * u)" using u by (intro mult_nonneg_nonneg) auto
    then show ?thesis by (simp add: algebra_simps)
  qed
  have "Z \<le> (1 + u) * (M / q)" by (rule Z(2))
  also have "\<dots> \<le> (1 + u) * (w / (1 - u))" using T(3) u by (intro mult_left_mono) auto
  also have "\<dots> \<le> (1 + u) * (((1 + u) * W) / (1 - u))"
    using w(2) u by (intro mult_left_mono divide_right_mono) auto
  also have "\<dots> \<le> (1 + 4 * u) * W"
  proof -
    have "(1 + u) * (1 + u) * W \<le> (1 + 4 * u) * (1 - u) * W"
      using up W by (intro mult_right_mono) auto
    then have "(1 + u) * ((1 + u) * W) \<le> (1 + 4 * u) * W * (1 - u)" by (simp add: mult_ac)
    then have "(1 + u) * ((1 + u) * W) / (1 - u) \<le> (1 + 4 * u) * W"
      using u by (subst pos_divide_le_eq) auto
    then show ?thesis by simp
  qed
  finally have hi: "Z \<le> (1 + 4 * u) * W" .
  have "(1 - 4 * u) * W \<le> (1 - u) * (((1 - u) * W) / (1 + u))"
  proof -
    have "(1 - 4 * u) * (1 + u) * W \<le> (1 - u) * (1 - u) * W"
      using low W by (intro mult_right_mono) auto
    then have "(1 - 4 * u) * W * (1 + u) \<le> (1 - u) * ((1 - u) * W)" by (simp add: mult_ac)
    then have "(1 - 4 * u) * W \<le> (1 - u) * ((1 - u) * W) / (1 + u)"
      using u by (subst pos_le_divide_eq) auto
    then show ?thesis by simp
  qed
  also have "\<dots> \<le> (1 - u) * (w / (1 + u))"
    using w(1) u by (intro mult_left_mono divide_right_mono) auto
  also have "\<dots> \<le> (1 - u) * (M / q)" using T(2) u by (intro mult_left_mono) auto
  also have "\<dots> \<le> Z" by (rule Z(1))
  finally have lo: "(1 - 4 * u) * W \<le> Z" .
  show ?thesis using within_factor [of 4 u W Z] lo hi by simp
qed

lemma nearest_ge_small: "1 / 2 ^ 505 \<le> x \<Longrightarrow> 1 / 2 ^ 505 \<le> nearest x"
  using nearest_ge_pow2 [of "- 505" x] by (simp add: power_int_minus inverse_eq_divide)

lemma nearest_le_large: "x \<le> 2 ^ 506 \<Longrightarrow> nearest x \<le> 2 ^ 506"
  using nearest_le_pow2 [of 506 x] by simp

lemma tiny_le: "tiny \<le> 1 / 2 ^ 1012"
  by (simp add: tiny_def power_int_minus inverse_eq_divide)

lemma scaled_analysis:
  fixes rs :: "real list"
  assumes ne: "rs \<noteq> []"
    and mag: "\<And>x. x \<in> set rs \<Longrightarrow> \<bar>x\<bar> \<le> 2 ^ 505"
    and sp: "1 / 2 ^ 505 \<le> Max (set rs) - Min (set rs)"
    and lo: "lo \<in> doubles" "\<bar>lo\<bar> \<le> 2 ^ 505"
    and hi: "hi \<in> doubles" "\<bar>hi\<bar> \<le> 2 ^ 505"
    and width: "1 / 2 ^ 505 \<le> hi - lo"
  shows "\<exists>q. 0 < q
      \<and> (1 - ulp_half) * (nearest (Max (set rs) - Min (set rs)) / nearest (hi - lo)) \<le> q
      \<and> q \<le> (1 + ulp_half) * (nearest (Max (set rs) - Min (set rs)) / nearest (hi - lo))
      \<and> scaled (map Fin rs) (Fin lo, Fin hi) = map (\<lambda>x. Fin (rescale (Min (set rs)) q lo x)) rs
      \<and> mono (rescale (Min (set rs)) q lo)
      \<and> (\<forall>x\<in>set rs. rescale (Min (set rs)) q lo x \<in> doubles)
      \<and> rescale (Min (set rs)) q lo (Min (set rs)) = lo
      \<and> \<bar>rescale (Min (set rs)) q lo (Max (set rs)) - hi\<bar> \<le> 8 * ulp_half * (hi - lo)"
proof -
  define D where "D = Max (set rs) - Min (set rs)"
  define W where "W = hi - lo"
  define M where "M = nearest D"
  define w where "w = nearest W"
  define q where "q = nearest (M / w)"
  define Z where "Z = nearest (M / q)"
  define K :: real where "K = 2 ^ 505"
  define P :: real where "P = 2 ^ 506"
  define k :: real where "k = 1 / 2 ^ 505"
  define r1 :: real where "r1 = 1 / 2 ^ 1011"
  define r2 :: real where "r2 = 2 ^ 1011"
  note u = ulp_half_bounds
  have u0: "0 \<le> ulp_half" using u(1) by simp
  have K: "K + K = P" "0 < k" "k \<le> P" "P \<le> 2 ^ 1023" "tiny \<le> k"
    "k / P = r1" "P / k = r2" "tiny \<le> r1"
    "r2 \<le> 2 ^ 1023" "2 * P \<le> 2 ^ 1022" "tiny \<le> k / 2"
    "K \<le> 2 ^ 1022" "2 * P \<le> 2 ^ 1023"
    using tiny_le by (simp_all add: K_def k_def P_def r1_def r2_def)
  have fin: "finite (set rs)" "set rs \<noteq> {}" using ne by auto
  have "Min (set rs) \<in> set rs" "Max (set rs) \<in> set rs" using fin by (auto intro: Min_in Max_in)
  then have "\<bar>Min (set rs)\<bar> \<le> K" "\<bar>Max (set rs)\<bar> \<le> K" using mag by (auto simp: K_def)
  then have "D \<le> K + K" unfolding D_def by linarith
  then have D2: "D \<le> P" using K(1) by simp
  have D1: "k \<le> D" using sp by (simp add: D_def k_def)
  have M1: "k \<le> M" unfolding M_def k_def using D1 [unfolded k_def] by (rule nearest_ge_small)
  have M2: "M \<le> P" unfolding M_def P_def using D2 [unfolded P_def] by (rule nearest_le_large)
  have Mpos: "0 < M" using M1 K(2) by linarith
  have loK: "\<bar>lo\<bar> \<le> K" and hiK: "\<bar>hi\<bar> \<le> K" using lo hi by (simp_all add: K_def)
  then have "W \<le> K + K" unfolding W_def by linarith
  then have W2: "W \<le> P" using K(1) by simp
  have W1: "k \<le> W" using width by (simp add: W_def k_def)
  have Wpos: "0 < W" using W1 K(2) by linarith
  have w1: "k \<le> w" unfolding w_def k_def using W1 [unfolded k_def] by (rule nearest_ge_small)
  have w2: "w \<le> P" unfolding w_def P_def using W2 [unfolded P_def] by (rule nearest_le_large)
  have wpos: "0 < w" using w1 K(2) by linarith
  have Wn: "tiny \<le> W" "W \<le> 2 ^ 1023" using W1 W2 K(4,5) by linarith+
  have wrel: "(1 - ulp_half) * W \<le> w" "w \<le> (1 + ulp_half) * W"
    unfolding w_def using Wn by (rule nearest_rel_pos)+
  have "\<bar>W\<bar> \<le> 2 ^ 1023" using Wn(2) Wpos by linarith
  then have rndW: "rnd (hi - lo) = Fin w"
    unfolding w_def W_def by (rule rnd_finite)
  have "k / P \<le> M / w" using K(2) M1 wpos w2 by (intro frac_le) simp_all
  then have R1: "r1 \<le> M / w" unfolding K(6) .
  have "M / w \<le> P / k" using Mpos M2 K(2) w1 by (intro frac_le) simp_all
  then have R2: "M / w \<le> r2" unfolding K(7) .
  have Rn: "tiny \<le> M / w" "M / w \<le> 2 ^ 1023" using R1 R2 K(8,9) by linarith+
  have qrel: "(1 - ulp_half) * (M / w) \<le> q" "q \<le> (1 + ulp_half) * (M / w)"
    unfolding q_def using Rn by (rule nearest_rel_pos)+
  have Rpos: "0 < M / w" using Mpos wpos by simp
  have "\<bar>M / w\<bar> \<le> 2 ^ 1023" using Rn(2) Rpos by linarith
  then have rndq: "rnd (M / w) = Fin q"
    unfolding q_def by (rule rnd_finite)
  note QB = quotient_bounds [OF u0 u(2) wpos Mpos qrel]
  have "w / (1 - ulp_half) \<le> w / (1 / 2)" using wpos u by (intro frac_le) simp_all
  then have "w / (1 - ulp_half) \<le> 2 * w" by simp
  then have T2: "M / q \<le> 2 * P" using QB(3) w2 by linarith
  have "w / 2 \<le> w / (1 + ulp_half)" using wpos u by (intro frac_le) simp_all
  then have T1: "k / 2 \<le> M / q" using QB(2) w1 by linarith
  have Tn: "tiny \<le> M / q" "M / q \<le> 2 ^ 1023" using T1 T2 K(11,13) by linarith+
  have Zrel: "(1 - ulp_half) * (M / q) \<le> Z" "Z \<le> (1 + ulp_half) * (M / q)"
    unfolding Z_def using Tn by (rule nearest_rel_pos)+
  have ZW: "\<bar>Z - W\<bar> \<le> 4 * ulp_half * W"
    by (rule ratio_bounds [OF u0 u(2) Wpos Mpos wrel qrel Zrel])
  define G where "G = rescale (Min (set rs)) q lo"
  have G_eq: "G = (\<lambda>x. nearest (nearest (nearest (x - Min (set rs)) / q) + lo))"
    by (rule ext) (simp add: G_def rescale_def)
  have c1: "Max (set rs) - Min (set rs) \<le> 2 ^ 1023" using D2 K(4) unfolding D_def by linarith
  have c2: "w \<noteq> 0" using wpos by simp
  have c3: "rnd (nearest (Max (set rs) - Min (set rs)) / w) = Fin q"
    using rndq by (simp add: M_def D_def)
  have c4: "nearest (Max (set rs) - Min (set rs)) / q \<le> 2 ^ 1022"
    using T2 K(10) unfolding M_def D_def by linarith
  have c5: "\<bar>lo\<bar> \<le> 2 ^ 1022" using loK K(12) by linarith
  note core = scaled_core [OF ne c1 rndW c2 c3 QB(1) c4 c5, folded G_eq]
  have Gmn: "G (Min (set rs)) = lo"
    using lo(1) by (simp add: G_eq nearest_0 nearest_id)
  have Gmx: "G (Max (set rs)) = nearest (Z + lo)"
    by (simp add: G_eq Z_def M_def D_def)
  define e1 where "e1 = \<bar>nearest (Z + lo) - (Z + lo)\<bar>"
  define e2 where "e2 = \<bar>hi - (Z + lo)\<bar>"
  have "e1 \<le> e2"
    unfolding e1_def e2_def using hi(1) by (intro nearest_closest) (simp add: grid_def)
  moreover have "e2 = \<bar>Z - W\<bar>"
    unfolding W_def e2_def by (simp add: abs_minus_commute algebra_simps)
  moreover have "\<bar>nearest (Z + lo) - hi\<bar> \<le> e1 + e2"
    unfolding e1_def e2_def
    using abs_triangle_ineq4 [of "nearest (Z + lo) - (Z + lo)" "hi - (Z + lo)"] by simp
  ultimately have "\<bar>nearest (Z + lo) - hi\<bar> \<le> 2 * \<bar>Z - W\<bar>" by simp
  also have "\<dots> \<le> 2 * (4 * ulp_half * W)" using ZW by simp
  finally have H: "\<bar>G (Max (set rs)) - hi\<bar> \<le> 8 * ulp_half * (hi - lo)"
    by (simp add: Gmx W_def)
  have core1: "scaled (map Fin rs) (Fin lo, Fin hi) = map (\<lambda>x. Fin (G x)) rs"
    using core(1) by (simp add: G_eq)
  have core3: "G x \<in> doubles" if "x \<in> set rs" for x
    using core(3) [OF that] by (simp add: G_eq)
  show ?thesis
    using QB(1) qrel core1 core(2) core3 Gmn H unfolding G_def M_def w_def D_def W_def
    by (intro exI [of _ q]) simp
qed

text \<open>The second scaling of a scaled field: its extent is the width of the range up to
  rounding, so the divisor is 1 up to rounding, and every entry is reproduced up to
  rounding.\<close>

lemma ulp_half_small: "13 * ulp_half \<le> 1 / 3" "8 * ulp_half \<le> 1 / 2"
  by (simp_all add: ulp_half_def power_int_minus)

lemma requotient_numeric:
  "0 < (1 - ulp_half) * ((1 - ulp_half) * (1 - 8 * ulp_half) / (1 + ulp_half))"
  "1 / ((1 - ulp_half) * ((1 - ulp_half) * (1 - 8 * ulp_half) / (1 + ulp_half))) \<le> 1 + 13 * ulp_half"
  "1 - 13 * ulp_half \<le> 1 / ((1 + ulp_half) * ((1 + ulp_half) * (1 + 8 * ulp_half) / (1 - ulp_half)))"
  by (simp_all add: ulp_half_def power_int_minus)

lemma requotient_bounds:
  fixes W D M w q :: real
  assumes W: "0 < W"
    and D: "(1 - 8 * ulp_half) * W \<le> D" "D \<le> (1 + 8 * ulp_half) * W"
    and M: "(1 - ulp_half) * D \<le> M" "M \<le> (1 + ulp_half) * D"
    and w: "(1 - ulp_half) * W \<le> w" "w \<le> (1 + ulp_half) * W"
    and q: "(1 - ulp_half) * (M / w) \<le> q" "q \<le> (1 + ulp_half) * (M / w)"
  shows "0 < q" "1 - 13 * ulp_half \<le> 1 / q" "1 / q \<le> 1 + 13 * ulp_half"
proof -
  note u = ulp_half_bounds
  define a where "a = 1 - ulp_half"
  define b where "b = 1 + ulp_half"
  define c where "c = 1 - 8 * ulp_half"
  define d where "d = 1 + 8 * ulp_half"
  have pos: "0 < a" "0 < b" "0 < c" "0 < d" "a \<le> b"
    using u ulp_half_small by (simp_all add: a_def b_def c_def d_def)
  have wpos: "0 < w"
  proof -
    have "0 < a * W" using pos W by (intro mult_pos_pos)
    then show ?thesis using w(1) unfolding a_def by linarith
  qed
  have Dpos: "0 \<le> D"
  proof -
    have "0 < c * W" using pos W by (intro mult_pos_pos)
    then show ?thesis using D(1) unfolding c_def by linarith
  qed
  have M1: "a * (c * W) \<le> M"
  proof -
    have "a * (c * W) \<le> a * D" using D(1) pos unfolding c_def by (intro mult_left_mono) auto
    then show ?thesis using M(1) unfolding a_def by linarith
  qed
  have M2: "M \<le> b * (d * W)"
  proof -
    have "b * D \<le> b * (d * W)" using D(2) pos unfolding d_def by (intro mult_left_mono) auto
    then show ?thesis using M(2) unfolding b_def by linarith
  qed
  have acW: "0 < a * (c * W)" using pos W by (intro mult_pos_pos)
  have Mpos: "0 < M" using acW M1 by linarith
  have "a * (c * W) / (b * W) \<le> M / w"
    using acW M1 wpos w(2) unfolding b_def by (intro frac_le) auto
  moreover have "a * (c * W) / (b * W) = a * c / b" using W by simp
  ultimately have R1: "a * c / b \<le> M / w" by simp
  have "M / w \<le> b * (d * W) / (a * W)"
    using Mpos M2 w(1) pos W unfolding a_def [symmetric] by (intro frac_le) (auto intro: mult_pos_pos)
  moreover have "b * (d * W) / (a * W) = b * d / a" using W by simp
  ultimately have R2: "M / w \<le> b * d / a" by simp
  have "a * (a * c / b) \<le> a * (M / w)" using R1 pos by (intro mult_left_mono) auto
  then have q1: "a * (a * c / b) \<le> q" using q(1) unfolding a_def by linarith
  have "b * (M / w) \<le> b * (b * d / a)" using R2 pos by (intro mult_left_mono) auto
  then have q2: "q \<le> b * (b * d / a)" using q(2) unfolding b_def by linarith
  have al: "0 < a * (a * c / b)" using requotient_numeric(1) by (simp add: a_def b_def c_def)
  show qpos: "0 < q" using al q1 by linarith
  have "1 / q \<le> 1 / (a * (a * c / b))" using al q1 by (intro frac_le) auto
  then show "1 / q \<le> 1 + 13 * ulp_half"
    using requotient_numeric(2) unfolding a_def b_def c_def by linarith
  have "1 / (b * (b * d / a)) \<le> 1 / q" using qpos q2 by (intro frac_le) auto
  then show "1 - 13 * ulp_half \<le> 1 / q"
    using requotient_numeric(3) unfolding a_def b_def d_def by linarith
qed

lemma ulp_half_thousandth: "ulp_half \<le> 1 / 1000"
  by (simp add: ulp_half_def power_int_minus)

lemma abs_diff_triangle:
  fixes a b c :: real
  shows "\<bar>a - c\<bar> \<le> \<bar>a - b\<bar> + \<bar>b - c\<bar>"
  by simp

lemma rescale_error:
  assumes t: "t \<in> doubles" and D: "0 \<le> t - lo" "t - lo \<le> 2 * W"
    and W: "tiny \<le> W" "4 * W \<le> 2 ^ 1023"
    and q: "0 < q" "1 - 13 * ulp_half \<le> 1 / q" "1 / q \<le> 1 + 13 * ulp_half"
  shows "\<bar>rescale lo q lo t - t\<bar> \<le> 90 * ulp_half * W"
proof -
  note u = ulp_half_bounds
  define p where "p = ulp_half * W"
  define Y where "Y = nearest (t - lo)"
  define Z where "Z = nearest (Y / q)"
  have Wpos: "0 < W" using W(1) tiny_pos by linarith
  have p: "0 \<le> p" "1000 * p \<le> W"
  proof -
    show "0 \<le> p" unfolding p_def using u Wpos by (intro mult_nonneg_nonneg) auto
    have "ulp_half * W \<le> (1 / 1000) * W"
      using ulp_half_thousandth Wpos by (intro mult_right_mono) auto
    then show "1000 * p \<le> W" by (simp add: p_def)
  qed
  have "\<bar>nearest (t - lo) - (t - lo)\<bar> \<le> ulp_half * (2 * W)"
    using D W Wpos by (intro nearest_abs) auto
  then have e1: "\<bar>Y - (t - lo)\<bar> \<le> 2 * p" by (simp add: Y_def p_def)
  have Y0: "0 \<le> Y" unfolding Y_def using D(1) by (rule nearest_nonneg)
  have Y3: "Y \<le> 3 * W" using e1 D(2) p by linarith
  have "(1 - 13 * ulp_half) * Y \<le> (1 / q) * Y" "(1 / q) * Y \<le> (1 + 13 * ulp_half) * Y"
    using q(2,3) Y0 by (intro mult_right_mono; simp)+
  then have yq: "Y - 13 * ulp_half * Y \<le> Y / q" "Y / q \<le> Y + 13 * ulp_half * Y"
    by (simp_all add: algebra_simps)
  have "13 * ulp_half * Y \<le> 13 * ulp_half * (3 * W)"
    using Y3 u by (intro mult_left_mono) auto
  then have uy: "13 * ulp_half * Y \<le> 39 * p" by (simp add: p_def)
  have e2: "\<bar>Y / q - Y\<bar> \<le> 39 * p" using yq uy by linarith
  have Yq0: "0 \<le> Y / q" using Y0 q(1) by simp
  have Yq4: "Y / q \<le> 4 * W" using e2 Y3 p by linarith
  have "\<bar>nearest (Y / q) - Y / q\<bar> \<le> ulp_half * (4 * W)"
    using Yq0 Yq4 W Wpos by (intro nearest_abs) auto
  then have e3: "\<bar>Z - Y / q\<bar> \<le> 4 * p" by (simp add: Z_def p_def)
  have "\<bar>Z - (t - lo)\<bar> \<le> \<bar>Z - Y\<bar> + \<bar>Y - (t - lo)\<bar>" by (rule abs_diff_triangle)
  moreover have "\<bar>Z - Y\<bar> \<le> \<bar>Z - Y / q\<bar> + \<bar>Y / q - Y\<bar>" by (rule abs_diff_triangle)
  ultimately have e4: "\<bar>Z - (t - lo)\<bar> \<le> 45 * p" using e1 e2 e3 by linarith
  define e5 where "e5 = \<bar>nearest (Z + lo) - (Z + lo)\<bar>"
  define e6 where "e6 = \<bar>(Z + lo) - t\<bar>"
  have "\<bar>nearest (Z + lo) - (Z + lo)\<bar> \<le> \<bar>t - (Z + lo)\<bar>"
    using t by (intro nearest_closest) (simp add: grid_def)
  then have "e5 \<le> e6" by (simp add: e5_def e6_def abs_minus_commute)
  moreover have "e6 = \<bar>Z - (t - lo)\<bar>" unfolding e6_def by (simp add: algebra_simps)
  moreover have "\<bar>nearest (Z + lo) - t\<bar> \<le> e5 + e6"
    unfolding e5_def e6_def by (rule abs_diff_triangle)
  ultimately have "\<bar>nearest (Z + lo) - t\<bar> \<le> 90 * p" using e4 by linarith
  then show ?thesis by (simp add: rescale_def Z_def Y_def p_def)
qed

section \<open>What \<^verbatim>\<open>scale_2D\<close> computes\<close>

lemma scale_2D_nonempty:
  assumes "values_of s a \<noteq> []"
  shows "scale_2D s a rg =
    (Inr \<lparr>buf = fresh s, off = 0, rows = rows a, cols = cols a\<rparr>,
     s\<lparr>bufs := (bufs s)(fresh s := scaled (values_of s a) rg), fresh := Suc (fresh s)\<rparr>)"
proof -
  obtain x r where xr: "values_of s a = x # r"
    using assms by (cases "values_of s a") auto
  show ?thesis
    by (simp add: scale_2D_def flatten_def alloc_def np_min_def np_max_def inplace_def
        scaled_def Let_def xr o_def)
qed

lemma scale_2D_empty:
  assumes "values_of s a = []"
  shows "scale_2D s a rg =
    (Inl ValueError, s\<lparr>bufs := (bufs s)(fresh s := []), fresh := Suc (fresh s)\<rparr>)"
  using assms
  by (simp add: scale_2D_def flatten_def alloc_def np_min_def)

lemma scale_2D_bufs_old:
  "b < fresh s \<Longrightarrow> bufs (snd (scale_2D s a rg)) b = bufs s b"
  by (cases "values_of s a = []") (simp_all add: scale_2D_nonempty scale_2D_empty)

lemma scale_2D_fresh: "fresh (snd (scale_2D s a rg)) = Suc (fresh s)"
  by (cases "values_of s a = []") (simp_all add: scale_2D_nonempty scale_2D_empty)

lemma scale_2D_rng: "rng (snd (scale_2D s a rg)) = rng s"
  by (cases "values_of s a = []") (simp_all add: scale_2D_nonempty scale_2D_empty)

lemma values_of_cong:
  "bufs s' (buf a) = bufs s (buf a) \<Longrightarrow> values_of s' a = values_of s a"
  by (simp add: values_of_def)

lemma foldl_fmin_replicate: "foldl fmin c (replicate n c) = c"
  by (induction n) (cases c; simp)+

lemma foldl_fmax_replicate: "foldl fmax c (replicate n c) = c"
  by (induction n) (cases c; simp)+

lemma fdiv_self_shift_nan:
  "fdiv (fadd c (fneg c)) (fdiv (fadd c (fneg c)) d) = NaN"
  by (cases c; cases d) auto

lemma scaled_replicate:
  "scaled (replicate (Suc n) c) rg = replicate (Suc n) NaN"
proof -
  have "fadd (fdiv (fadd c (fneg c)) (fdiv (fadd c (fneg c)) d)) l = NaN" for d l
    by (simp add: fdiv_self_shift_nan)
  then show ?thesis
    by (simp add: scaled_def Let_def foldl_fmin_replicate foldl_fmax_replicate
        map_replicate_const del: replicate_Suc replicate.simps)
qed


lemma length_scaled: "length (scaled xs rg) = length xs"
  by (simp add: scaled_def Let_def)


section \<open>\<^verbatim>\<open>scale_2D\<close> and its argument\<close>

text \<open>
  Claim C10. \<^verbatim>\<open>scale_2D\<close> never writes to its argument: for an array object \<open>a\<close> of the
  state (its buffer was allocated before the call), the values of \<open>a\<close> after the call
  are its values before the call, whether the call returns or raises; no buffer that
  existed before the call is changed at all; and the array returned lies in a buffer
  that is new, so it is not the argument's.
\<close>

theorem scale_2D_leaves_input_unchanged:
  assumes "buf a < fresh s"
  shows "values_of (snd (scale_2D s a rg)) a = values_of s a
       \<and> (\<forall>b. b < fresh s \<longrightarrow> bufs (snd (scale_2D s a rg)) b = bufs s b)
       \<and> (\<forall>r. fst (scale_2D s a rg) = Inr r \<longrightarrow> buf r = fresh s \<and> buf r \<noteq> buf a)"
proof (intro conjI allI impI)
  show "values_of (snd (scale_2D s a rg)) a = values_of s a"
    using assms by (intro values_of_cong scale_2D_bufs_old)
next
  fix b assume "b < fresh s"
  then show "bufs (snd (scale_2D s a rg)) b = bufs s b" by (rule scale_2D_bufs_old)
next
  fix r assume r: "fst (scale_2D s a rg) = Inr r"
  then show "buf r = fresh s"
    by (cases "values_of s a = []") (auto simp: scale_2D_nonempty scale_2D_empty)
  with assms show "buf r \<noteq> buf a" by simp
qed


theorem scale_2D_leaves_input_unchanged_witness:
  "buf ex_background < fresh ex_state
   \<and> values_of (snd (scale_2D ex_state ex_background (Fin 0, Fin 3))) ex_background
       = [Fin 10, Fin 20, Fin 30, Fin 40]
   \<and> fst (scale_2D ex_state ex_background (Fin 0, Fin 3))
       = Inr \<lparr>buf = 3, off = 0, rows = 2, cols = 2\<rparr>
   \<and> values_of (snd (scale_2D ex_state ex_background (Fin 0, Fin 3)))
         \<lparr>buf = 3, off = 0, rows = 2, cols = 2\<rparr>
       = [Fin 0, Fin 1, Fin 2, Fin 3]"
  using scale_2D_leaves_input_unchanged [of ex_background ex_state "(Fin 0, Fin 3)"]
  by (simp add: ex_state_def ex_background_def values_of_def scale_2D_def flatten_def alloc_def
      np_min_def np_max_def inplace_def fsub_def Let_def)

section \<open>\<^verbatim>\<open>scale_2D\<close> on a constant field\<close>

text \<open>
  Claim C9. For every field that is not empty and whose entries are all the same value
  \<open>c\<close>, and every range, \<^verbatim>\<open>scale_2D\<close> does not raise: it returns an array of the same
  shape whose entries are all NaN. (The shifted field is zero everywhere, so is its
  maximum and the divisor, and nothing guards the division.)
\<close>

theorem scale_2D_constant_field:
  assumes "values_of s a = replicate (rows a * cols a) c" and "0 < rows a * cols a"
  shows "\<exists>r. fst (scale_2D s a rg) = Inr r \<and> rows r = rows a \<and> cols r = cols a
             \<and> values_of (snd (scale_2D s a rg)) r = replicate (rows a * cols a) NaN"
proof -
  obtain n where n: "rows a * cols a = Suc n"
    using assms(2) by (cases "rows a * cols a") auto
  have ne: "values_of s a \<noteq> []"
    using assms(1) n by simp
  show ?thesis
    using assms(1)
    by (simp add: scale_2D_nonempty [OF ne] n scaled_replicate values_of_def
        del: replicate_Suc replicate.simps)
qed

theorem scale_2D_constant_field_witness:
  "values_of ex_state ex_image = replicate (rows ex_image * cols ex_image) (Fin 1)
   \<and> 0 < rows ex_image * cols ex_image
   \<and> (\<exists>r. fst (scale_2D ex_state ex_image (Fin 0, Fin 255)) = Inr r
          \<and> values_of (snd (scale_2D ex_state ex_image (Fin 0, Fin 255))) r
              = [NaN, NaN, NaN, NaN])"
  using scale_2D_constant_field [of ex_state ex_image "Fin 1" "(Fin 0, Fin 255)"]
  by (auto simp: ex_state_def ex_image_def values_of_def numeral_eq_Suc)

section \<open>The range of \<^verbatim>\<open>scale_2D\<close>\<close>

lemma scale_2D_field:
  assumes vals: "values_of s a = map Fin rs" and ne: "rs \<noteq> []"
    and sc: "scaled (map Fin rs) rg = map Fin ts"
  shows "scale_2D s a rg =
           (Inr \<lparr>buf = fresh s, off = 0, rows = rows a, cols = cols a\<rparr>,
            s\<lparr>bufs := (bufs s)(fresh s := map Fin ts), fresh := Suc (fresh s)\<rparr>)"
    and "values_of (snd (scale_2D s a rg)) \<lparr>buf = fresh s, off = 0, rows = rows a, cols = cols a\<rparr>
           = map Fin ts"
    and "length ts = length rs"
proof -
  have ne': "values_of s a \<noteq> []" using vals ne by simp
  show eq: "scale_2D s a rg =
           (Inr \<lparr>buf = fresh s, off = 0, rows = rows a, cols = cols a\<rparr>,
            s\<lparr>bufs := (bufs s)(fresh s := map Fin ts), fresh := Suc (fresh s)\<rparr>)"
    by (simp add: scale_2D_nonempty [OF ne'] vals sc)
  have "length (map Fin ts) = length (map Fin rs)" using length_scaled [of "map Fin rs" rg] sc by simp
  then show len: "length ts = length rs" by simp
  have "length (map Fin ts) \<le> rows a * cols a"
    using length_values_of [of s a] vals len by simp
  then show "values_of (snd (scale_2D s a rg)) \<lparr>buf = fresh s, off = 0, rows = rows a, cols = cols a\<rparr>
           = map Fin ts"
    unfolding eq snd_conv by (rule values_of_new)
qed

lemma moderate_505:
  fixes x :: real
  shows "x \<le> 2 ^ 500 \<Longrightarrow> x \<le> 2 ^ 505" "- (2 ^ 500) \<le> x \<Longrightarrow> - (2 ^ 505) \<le> x"
    "1 / 2 ^ 500 \<le> x \<Longrightarrow> 1 / 2 ^ 505 \<le> x"
proof -
  have a: "(2::real) ^ 500 \<le> 2 ^ 505" "(1::real) / 2 ^ 505 \<le> 1 / 2 ^ 500" by simp_all
  show "x \<le> 2 ^ 500 \<Longrightarrow> x \<le> 2 ^ 505" using a(1) by (rule order_trans [rotated])
  show "- (2 ^ 500) \<le> x \<Longrightarrow> - (2 ^ 505) \<le> x" using a(1) by linarith
  show "1 / 2 ^ 500 \<le> x \<Longrightarrow> 1 / 2 ^ 505 \<le> x" using a(2) by (rule order_trans)
qed

lemma eight_ulp: "8 * ulp_half * W = W / 2 ^ 50"
  by (simp add: ulp_half_def power_int_minus)

lemma big_pos: "0 < big"
  by (simp add: big_def)

lemma big_in_doubles: "big \<in> doubles" "- big \<in> doubles"
proof -
  have "real_of_int (2 ^ 52) * 2 powi 971 \<in> doubles" by (rule doubles_I) auto
  moreover have "real_of_int (- (2 ^ 52)) * 2 powi 971 \<in> doubles" by (rule doubles_I) auto
  moreover have "(2::real) ^ 52 * 2 powi 971 = big"
    by (simp add: big_def power_int_def flip: power_add)
  ultimately show "big \<in> doubles" "- big \<in> doubles" by auto
qed

lemma shift_overflow:
  "fadd (Fin big) (fneg (Fin (- big))) = PInf"
  "fadd (Fin (- big)) (fneg (Fin (- big))) = Fin 0"
proof -
  have "big + big = huge" by (simp add: huge_def big_def)
  then have "rnd (big + big) = PInf" by (intro rnd_overflow) simp
  then show "fadd (Fin big) (fneg (Fin (- big))) = PInf" by simp
  show "fadd (Fin (- big)) (fneg (Fin (- big))) = Fin 0" by simp
qed

lemma scaled_overflow:
  "scaled [Fin (- big), Fin big] (Fin 0, Fin 1) = [Fin 0, NaN]"
  using big_pos
  by (simp add: scaled_def Let_def shift_overflow fsub_def del: fneg.simps fadd.simps) simp

lemma values_of_ex_extreme:
  "values_of ex_extreme_state ex_extreme = [Fin (- big), Fin big]"
  by (simp add: values_of_def ex_extreme_state_def ex_extreme_def)




section \<open>Scaling twice\<close>

lemma second_field_bounds:
  fixes lo hi H :: real
  assumes lo: "- (2 ^ 500) \<le> lo" and hi: "hi \<le> 2 ^ 500" and W: "1 / 2 ^ 500 \<le> hi - lo"
    and H: "\<bar>H - hi\<bar> \<le> 8 * ulp_half * (hi - lo)"
  shows "1 / 2 ^ 505 \<le> H - lo"
    and "\<And>t. lo \<le> t \<Longrightarrow> t \<le> H \<Longrightarrow> \<bar>t\<bar> \<le> 2 ^ 505"
    and "(1 - 8 * ulp_half) * (hi - lo) \<le> H - lo"
    and "H - lo \<le> (1 + 8 * ulp_half) * (hi - lo)"
    and "tiny \<le> H - lo" and "H - lo \<le> 2 ^ 1023"
    and "tiny \<le> hi - lo" and "4 * (hi - lo) \<le> 2 ^ 1023"
    and "H - lo \<le> 2 * (hi - lo)"
    and "hi - lo \<le> 2 ^ 1023"
proof -
  define K :: real where "K = 2 ^ 500"
  define k :: real where "k = 1 / 2 ^ 500"
  define p where "p = 8 * ulp_half * (hi - lo)"
  have n: "0 < k" "1 / 2 ^ 505 \<le> k / 2" "3 * K \<le> 2 ^ 505" "tiny \<le> k / 2"
    "8 * K \<le> 2 ^ 1023" "0 < K"
    using tiny_le by (simp_all add: K_def k_def)
  have a: "- K \<le> lo" "hi \<le> K" "k \<le> hi - lo"
    using lo hi W by (simp_all add: K_def k_def)
  have Wpos: "0 < hi - lo" using a(3) n(1) by linarith
  have p: "0 \<le> p" "2 * p \<le> hi - lo"
  proof -
    show "0 \<le> p" unfolding p_def using ulp_half_bounds(1) Wpos by (intro mult_nonneg_nonneg) auto
    have "8 * ulp_half * (hi - lo) \<le> (1 / 2) * (hi - lo)"
      using ulp_half_small(2) Wpos by (intro mult_right_mono) auto
    then show "2 * p \<le> hi - lo" by (simp add: p_def)
  qed
  have Hb: "hi - p \<le> H" "H \<le> hi + p" using H unfolding p_def [symmetric] by linarith+
  have e: "(1 - 8 * ulp_half) * (hi - lo) = (hi - lo) - p" "(1 + 8 * ulp_half) * (hi - lo) = (hi - lo) + p"
    by (simp_all add: p_def algebra_simps)
  show "1 / 2 ^ 505 \<le> H - lo" using Hb p a n(2) by linarith
  show "\<bar>t\<bar> \<le> 2 ^ 505" if "lo \<le> t" "t \<le> H" for t
  proof -
    have "- (3 * K) \<le> t" "t \<le> 3 * K" using that Hb p a n(6) by linarith+
    then show ?thesis using n(3) by (simp add: abs_le_iff)
  qed
  show "(1 - 8 * ulp_half) * (hi - lo) \<le> H - lo" unfolding e using Hb by linarith
  show "H - lo \<le> (1 + 8 * ulp_half) * (hi - lo)" unfolding e using Hb by linarith
  show "tiny \<le> H - lo" using Hb p a n(4) by linarith
  show "H - lo \<le> 2 ^ 1023" using Hb p a n(5,6) by linarith
  show "tiny \<le> hi - lo" using a n(4,1) by linarith
  have "hi - lo \<le> 2 * K" using a by linarith
  then have "4 * (hi - lo) \<le> 8 * K" by simp
  then show "4 * (hi - lo) \<le> 2 ^ 1023" using n(5) by (rule order_trans)
  have "H - lo \<le> (hi - lo) + (hi - lo)" using Hb p by linarith
  then show "H - lo \<le> 2 * (hi - lo)" by simp
  show "hi - lo \<le> 2 ^ 1023" using a n(5,6) by linarith
qed

lemma ninety_ulp: "0 \<le> W \<Longrightarrow> 90 * ulp_half * W \<le> W / 2 ^ 46"
proof -
  assume W: "0 \<le> W"
  have "90 * ulp_half \<le> 1 / 2 ^ 46" by (simp add: ulp_half_def power_int_minus)
  then have "90 * ulp_half * W \<le> (1 / 2 ^ 46) * W" using W by (rule mult_right_mono)
  then show ?thesis by simp
qed

lemma scaled_nan: "scaled [Fin 0, NaN] (Fin 0, Fin 1) = [NaN, NaN]"
  by (simp add: scaled_def Let_def)




section \<open>What \<^verbatim>\<open>create_composition\<close> does to the state\<close>

lemma new_array_simps:
  "fst (new_array s v) = \<lparr>buf = fresh s, off = 0, rows = fst (shape v), cols = snd (shape v)\<rparr>"
  "bufs (snd (new_array s v)) = (bufs s)(fresh s := elems v)"
  "fresh (snd (new_array s v)) = Suc (fresh s)"
  "rng (snd (new_array s v)) = rng s"
  by (simp_all add: new_array_def alloc_def)

lemma shape_tabulate [simp]: "shape (tabulate sh f) = sh"
  by (simp add: tabulate_def)

lemma length_elems_tabulate [simp]: "length (elems (tabulate sh f)) = fst sh * snd sh"
  by (simp add: tabulate_def)

lemma shape_amap [simp]: "shape (amap f a) = shape a"
  by (simp add: amap_def)

lemma elems_amap [simp]: "elems (amap f a) = map f (elems a)"
  by (simp add: amap_def)

lemma shape_load [simp]: "shape (load s a) = (rows a, cols a)"
  by (simp add: load_def)

lemma shape_dist [simp]: "shape (dist_from_center w h c) = (h, w)"
  by (simp add: dist_from_center_def)

lemma shape_disk_mask [simp]: "shape (disk_mask w h c r) = (h, w)"
  by (simp add: disk_mask_def)

lemma one_product: "(a::nat) * b = 1 \<Longrightarrow> a = 1 \<and> b = 1"
  by simp

lemma ma_array_reshaped:
  assumes "fst (shape m) = snd (shape d)" and "snd (shape m) = fst (shape d)"
  shows "ma_array d m = Inr \<lparr>mdata = d, mmask = \<lparr>shape = shape d, elems = elems m\<rparr>\<rparr>"
proof (cases "shape m = shape d")
  case True
  then have "m = \<lparr>shape = shape d, elems = elems m\<rparr>" by simp
  then show ?thesis using True by (simp add: ma_array_def)
next
  case False
  have sz: "size_of m = size_of d" using assms by (simp add: size_of_def mult.commute)
  have "size_of m \<noteq> 1"
  proof
    assume "size_of m = 1"
    then have "fst (shape m) = 1 \<and> snd (shape m) = 1" by (simp add: size_of_def)
    then have "shape m = shape d" using assms by (simp add: prod_eq_iff)
    then show False using False by simp
  qed
  then show ?thesis using False sz by (simp add: ma_array_def)
qed

lemma ma_array_same:
  "shape m = shape d \<Longrightarrow> ma_array d m = Inr \<lparr>mdata = d, mmask = m\<rparr>"
  by (simp add: ma_array_def)

lemma compose_patch_unfold:
  "compose_patch s inp bg x y c0 r0 =
     (let w = rows inp; h = cols inp;
          center = resolve_center w h c0;
          radius = resolve_radius w h center r0;
          circle_image = \<lparr>mdata = load s inp,
                          mmask = \<lparr>shape = (w, h), elems = map Not (elems (disk_mask w h center radius))\<rparr>\<rparr>;
          (omf, s1) = new_array s (fade_input w h center radius)
      in case scale_2D s1 omf (Fin 0, Fin 1) of
           (Inl e, s2) \<Rightarrow> (Inl e, s2)
         | (Inr rescaled, s2) \<Rightarrow>
            (case binop fmul
                    (read_window s2 bg (slice_bounds (rows bg) y (y + int w))
                       (slice_bounds (cols bg) x (x + int h)))
                    (load s2 rescaled) of
               Inl e \<Rightarrow> (Inl e, s2)
             | Inr faded \<Rightarrow>
                (case binop fadd faded (load s inp) of
                   Inl e \<Rightarrow> (Inl e, s2)
                 | Inr background_fade \<Rightarrow>
                    (case ma_radd background_fade circle_image of
                       Inl e \<Rightarrow> (Inl e, s2)
                     | Inr new_input_image \<Rightarrow> (Inr new_input_image, s2)))))"
  by (simp add: compose_patch_def ma_array_reshaped ma_array_same fade_input_def Let_def
      split: prod.splits sum.splits)

lemma compose_patch_state:
  "snd (compose_patch s inp bg x y c0 r0) =
     snd (scale_2D
            (snd (new_array s (fade_input (rows inp) (cols inp) (resolve_center (rows inp) (cols inp) c0)
                    (resolve_radius (rows inp) (cols inp) (resolve_center (rows inp) (cols inp) c0) r0))))
            (fst (new_array s (fade_input (rows inp) (cols inp) (resolve_center (rows inp) (cols inp) c0)
                    (resolve_radius (rows inp) (cols inp) (resolve_center (rows inp) (cols inp) c0) r0))))
            (Fin 0, Fin 1))"
  by (simp add: compose_patch_unfold Let_def split: sum.splits prod.splits)

lemma compose_patch_bufs_old:
  "b < fresh s \<Longrightarrow> bufs (snd (compose_patch s inp bg x y c r)) b = bufs s b"
  by (simp add: compose_patch_state scale_2D_bufs_old new_array_simps)

lemma compose_patch_fresh:
  "fresh (snd (compose_patch s inp bg x y c r)) = Suc (Suc (fresh s))"
  by (simp add: compose_patch_state scale_2D_fresh new_array_simps)

lemma compose_patch_rng:
  "rng (snd (compose_patch s inp bg x y c r)) = rng s"
  by (simp add: compose_patch_state scale_2D_rng new_array_simps)


lemma slice_bounds_le:
  "fst (slice_bounds n a b) \<le> snd (slice_bounds n a b)" "snd (slice_bounds n a b) \<le> n"
  by (auto simp: slice_bounds_def Let_def)

lemma in_window_at:
  assumes "j < cols a"
  shows "in_window a rs cs (off a + i * cols a + j)
         \<longleftrightarrow> fst rs \<le> i \<and> i < snd rs \<and> fst cs \<le> j \<and> j < snd cs"
proof -
  have "(off a + i * cols a + j) - off a = i * cols a + j" by simp
  moreover have "(i * cols a + j) div cols a = i" using assms by simp
  moreover have "(i * cols a + j) mod cols a = j" using assms by simp
  ultimately show ?thesis by (simp add: in_window_def)
qed

lemma write_window_bufs:
  "write_window s a rs cs v = (Inr u, s') \<Longrightarrow>
   bufs s' = (bufs s)(buf a :=
       map (\<lambda>k. if in_window a rs cs k
                 then stretched v ((k - off a) div cols a - fst rs) ((k - off a) mod cols a - fst cs)
                 else bufs s (buf a) ! k)
           [0..<length (bufs s (buf a))])"
  by (auto simp: write_window_def Let_def split: if_splits)

lemma write_window_entry:
  assumes w: "write_window s a rs cs v = (Inr u, s')"
    and i: "i < rows a" and j: "j < cols a"
    and fits: "off a + rows a * cols a \<le> length (bufs s (buf a))"
  shows "entry s' a i j =
         (if fst rs \<le> i \<and> i < snd rs \<and> fst cs \<le> j \<and> j < snd cs
          then stretched v (i - fst rs) (j - fst cs) else entry s a i j)"
proof -
  have "i * cols a + j < rows a * cols a"
  proof -
    have "i * cols a + j < i * cols a + cols a" using j by simp
    also have "\<dots> = Suc i * cols a" by simp
    also have "\<dots> \<le> rows a * cols a" using i by (intro mult_le_mono1) simp
    finally show ?thesis .
  qed
  then have k: "off a + i * cols a + j < length (bufs s (buf a))" using fits by simp
  have d: "(i * cols a + j) div cols a = i" "j mod cols a = j"
    using j by simp_all
  show ?thesis
    unfolding entry_def write_window_bufs [OF w]
    using k in_window_at [OF j, of rs cs i] by (simp add: d)
qed

lemma create_composition_success:
  assumes "fst (create_composition s inp bg x y c r) = Inr res"
  shows "res = bg"
    and "\<exists>patch u. compose_patch s inp bg x y c r = (Inr patch, snd (compose_patch s inp bg x y c r))
          \<and> write_window (snd (compose_patch s inp bg x y c r)) bg
               (slice_bounds (rows bg) y (y + int (rows inp)))
               (slice_bounds (cols bg) x (x + int (cols inp))) (mdata patch)
             = (Inr u, snd (create_composition s inp bg x y c r))"
  using assms
  by (auto simp: create_composition_def split: sum.splits prod.splits)

lemma upt_4: "[0..<4] = [0, 1, 2, 3]"
  by (simp add: upt_rec)

lemma upt_9: "[0..<9] = [0, 1, 2, 3, 4, 5, 6, 7, 8]"
  by (simp add: upt_rec)

lemma tabulate_cong:
  assumes "\<And>i j. i < fst sh \<Longrightarrow> j < snd sh \<Longrightarrow> f i j = g i j"
  shows "tabulate sh f = tabulate sh g"
proof -
  have "f (k div snd sh) (k mod snd sh) = g (k div snd sh) (k mod snd sh)"
    if "k < fst sh * snd sh" for k
  proof -
    have pos: "0 < snd sh" using that by (cases "snd sh") auto
    have "k div snd sh < fst sh" using that pos by (simp add: less_mult_imp_div_less)
    moreover have "k mod snd sh < snd sh" using pos by simp
    ultimately show ?thesis by (rule assms)
  qed
  then show ?thesis by (simp add: tabulate_def)
qed

text \<open>
  Claim C7. When \<^verbatim>\<open>create_composition\<close> returns, for a background that is an array
  object of the state lying within its buffer: the array returned is the background
  object itself; the window \<^verbatim>\<open>background_image[y_offset:y_offset+w, x_offset:x_offset+h]\<close>
  holds the composed patch \<^verbatim>\<open>new_input_image\<close> (broadcast to the window's shape);
  every entry of the background outside the window has the value it had before the
  call; and no other buffer that existed before the call is changed.
\<close>

theorem create_composition_frame:
  assumes ok: "fst (create_composition s inp bg x y c r) = Inr res"
    and al: "buf bg < fresh s"
    and fits: "off bg + rows bg * cols bg \<le> length (bufs s (buf bg))"
  shows "res = bg
       \<and> (\<exists>patch. fst (compose_patch s inp bg x y c r) = Inr patch
             \<and> read_window (snd (create_composition s inp bg x y c r)) bg
                  (slice_bounds (rows bg) y (y + int (rows inp)))
                  (slice_bounds (cols bg) x (x + int (cols inp)))
                 = broadcast_to (mdata patch)
                     (snd (slice_bounds (rows bg) y (y + int (rows inp)))
                        - fst (slice_bounds (rows bg) y (y + int (rows inp))),
                      snd (slice_bounds (cols bg) x (x + int (cols inp)))
                        - fst (slice_bounds (cols bg) x (x + int (cols inp)))))
       \<and> (\<forall>i j. i < rows bg \<and> j < cols bg
               \<and> \<not> (fst (slice_bounds (rows bg) y (y + int (rows inp))) \<le> i
                    \<and> i < snd (slice_bounds (rows bg) y (y + int (rows inp)))
                    \<and> fst (slice_bounds (cols bg) x (x + int (cols inp))) \<le> j
                    \<and> j < snd (slice_bounds (cols bg) x (x + int (cols inp))))
               \<longrightarrow> entry (snd (create_composition s inp bg x y c r)) bg i j = entry s bg i j)
       \<and> (\<forall>b. b < fresh s \<and> b \<noteq> buf bg
               \<longrightarrow> bufs (snd (create_composition s inp bg x y c r)) b = bufs s b)"
proof -
  define R where "R = slice_bounds (rows bg) y (y + int (rows inp))"
  define C where "C = slice_bounds (cols bg) x (x + int (cols inp))"
  define s2 where "s2 = snd (compose_patch s inp bg x y c r)"
  define s3 where "s3 = snd (create_composition s inp bg x y c r)"
  obtain patch u where patch: "compose_patch s inp bg x y c r = (Inr patch, s2)"
    and w: "write_window s2 bg R C (mdata patch) = (Inr u, s3)"
    using create_composition_success(2) [OF ok] unfolding R_def C_def s2_def s3_def by blast
  have old: "bufs s2 b = bufs s b" if "b < fresh s" for b
    unfolding s2_def using that by (rule compose_patch_bufs_old)
  have fits2: "off bg + rows bg * cols bg \<le> length (bufs s2 (buf bg))"
    using fits old [OF al] by simp
  have e2: "entry s2 bg i j = entry s bg i j" for i j
    by (simp add: entry_def old [OF al])
  have R: "fst R \<le> snd R" "snd R \<le> rows bg" and C: "fst C \<le> snd C" "snd C \<le> cols bg"
    unfolding R_def C_def by (rule slice_bounds_le)+
  have 1: "res = bg" using ok by (rule create_composition_success(1))
  have 2: "read_window s3 bg R C = broadcast_to (mdata patch) (snd R - fst R, snd C - fst C)"
    unfolding read_window_def broadcast_to_def
  proof (rule tabulate_cong)
    fix i j
    assume "i < fst (snd R - fst R, snd C - fst C)" "j < snd (snd R - fst R, snd C - fst C)"
    then have i: "fst R + i < snd R" and j: "fst C + j < snd C" by simp_all
    have "fst R + i < rows bg" "fst C + j < cols bg" using i j R C by simp_all
    then show "entry s3 bg (fst R + i) (fst C + j) = stretched (mdata patch) i j"
      using write_window_entry [OF w _ _ fits2, of "fst R + i" "fst C + j"] i j by simp
  qed
  have 3: "entry s3 bg i j = entry s bg i j"
    if "i < rows bg" "j < cols bg"
       "\<not> (fst R \<le> i \<and> i < snd R \<and> fst C \<le> j \<and> j < snd C)" for i j
    using write_window_entry [OF w that(1,2) fits2] that(3) e2 by simp
  have 4: "bufs s3 b = bufs s b" if "b < fresh s" "b \<noteq> buf bg" for b
    using write_window_bufs [OF w] that old by simp
  have p: "fst (compose_patch s inp bg x y c r) = Inr patch" using patch by simp
  show ?thesis
    using 1 2 3 4 p unfolding R_def C_def s3_def by blast
qed

theorem create_composition_frame_witness:
  "fst (create_composition ex_state ex_image ex_wide 1 0 None None) = Inr ex_wide
   \<and> buf ex_wide < fresh ex_state
   \<and> off ex_wide + rows ex_wide * cols ex_wide \<le> length (bufs ex_state (buf ex_wide))
   \<and> slice_bounds (rows ex_wide) 0 (0 + int (rows ex_image)) = (0, 2)
   \<and> slice_bounds (cols ex_wide) 1 (1 + int (cols ex_image)) = (1, 3)
   \<and> values_of (snd (create_composition ex_state ex_image ex_wide 1 0 None None)) ex_wide
       = [Fin 10, Fin 21, Fin 2,
          Fin 40, Fin 2, Fin 2,
          Fin 70, Fin 80, Fin 90]"
  using create_composition_frame [of ex_state ex_image ex_wide 1 0 None None ex_wide]
  by (simp add: create_composition_def compose_patch_def ex_state_def ex_image_def ex_wide_def
      resolve_center_def resolve_radius_def disk_mask_def dist_from_center_def tabulate_def
      upt_4 power2_eq_square amap_def ma_array_def load_def values_of_def
      ma_setitem_def ma_le_def new_array_def alloc_def scale_2D_def flatten_def np_min_def
      np_max_def inplace_def read_window_def entry_def slice_bounds_def binop_def bshape_def
      bdim_def stretched_def ma_radd_def broadcast_to_def write_window_def in_window_def
      fsub_def size_of_def Let_def upt_9 float_of_int_def rnd_sqrt2)

section \<open>The pixels inside the disk\<close>

text \<open>
  Claim C1, which the program does not meet. \<^verbatim>\<open>out_image\<close> is the \<^verbatim>\<open>.data\<close> of a masked
  array, that is the whole of \<^verbatim>\<open>input_image\<close>, the disk included, and \<^verbatim>\<open>circle_image\<close>
  contributes the disk a second time. For the \<open>2 \<times> 2\<close> image of ones on the \<open>2 \<times> 2\<close>
  background, centre \<open>(1, 1)\<close> and radius 1, the call returns; the pixel at row 1 and
  column 1 is the centre itself, at distance \<open>0 < 1\<close>; the input has the value 1 there
  and the frame returned has the value 2.
\<close>

theorem create_composition_doubles_interior:
  "fst (create_composition ex_state ex_image ex_background 0 0 (Some (1, 1)) (Some (Fin 1)))
     = Inr ex_background
   \<and> elems (dist_from_center 2 2 (1, 1)) ! (1 * 2 + 1) = Fin 0
   \<and> entry ex_state ex_image 1 1 = Fin 1
   \<and> entry (snd (create_composition ex_state ex_image ex_background 0 0 (Some (1, 1)) (Some (Fin 1))))
        ex_background 1 1 = Fin 2"
  by (simp add: create_composition_def compose_patch_def ex_state_def ex_image_def
      ex_background_def resolve_center_def resolve_radius_def disk_mask_def dist_from_center_def
      tabulate_def upt_4 power2_eq_square amap_def ma_array_def load_def values_of_def
      ma_setitem_def ma_le_def new_array_def alloc_def scale_2D_def flatten_def np_min_def
      np_max_def inplace_def read_window_def entry_def slice_bounds_def binop_def bshape_def
      bdim_def stretched_def ma_radd_def broadcast_to_def write_window_def in_window_def
      fsub_def size_of_def Let_def float_of_int_def rnd_sqrt2)

section \<open>The radius argument of \<^verbatim>\<open>create_composition\<close>\<close>

lemma elems_tabulate_nth:
  assumes "i < fst sh" "j < snd sh"
  shows "elems (tabulate sh f) ! (i * snd sh + j) = f i j"
proof -
  have "i * snd sh + j < i * snd sh + snd sh" using assms by simp
  also have "\<dots> = Suc i * snd sh" by simp
  also have "\<dots> \<le> fst sh * snd sh" using assms by (intro mult_le_mono1) simp
  finally have "i * snd sh + j < fst sh * snd sh" .
  then show ?thesis using assms by (simp add: tabulate_def)
qed

lemma disk_mask_zero:
  assumes "x < w" "y < h"
  shows "elems (disk_mask w h cen (Fin 0)) ! (y * w + x) \<longleftrightarrow> int x = fst cen \<and> int y = snd cen"
proof -
  have "elems (dist_from_center w h cen) ! (y * w + x)
        = fsqrt (float_of_int ((int x - fst cen)\<^sup>2 + (int y - snd cen)\<^sup>2))"
    unfolding dist_from_center_def
    using elems_tabulate_nth [of y "(h, w)" x] assms by simp
  moreover have "y * w + x < length (elems (dist_from_center w h cen))"
  proof -
    have "y * w + x < y * w + w" using assms by simp
    also have "\<dots> = Suc y * w" by simp
    also have "\<dots> \<le> h * w" using assms by (intro mult_le_mono1) simp
    finally show ?thesis by (simp add: dist_from_center_def tabulate_def)
  qed
  moreover have "fle (fsqrt (float_of_int A)) (Fin 0) \<longleftrightarrow> A = 0" if "0 \<le> A" for A :: int
    using that by (rule sqrt_float_of_int_pos)
  moreover have "(0::int) \<le> (int x - fst cen)\<^sup>2 + (int y - snd cen)\<^sup>2" by simp
  moreover have "((int x - fst cen)\<^sup>2 + (int y - snd cen)\<^sup>2 = 0)
                 \<longleftrightarrow> int x = fst cen \<and> int y = snd cen"
    by (simp add: sum_power2_eq_zero_iff)
  ultimately show ?thesis
    by (simp only: disk_mask_def elems_amap nth_map)
qed

lemma resolve_center_Some: "resolve_center w h (Some c) = c"
  by (simp add: resolve_center_def)

lemma resolve_radius_Some: "resolve_radius w h cen (Some r) = r"
  by (simp add: resolve_radius_def)

lemma compose_patch_resolved:
  "compose_patch s inp bg x y c r
   = compose_patch s inp bg x y (Some (resolve_center (rows inp) (cols inp) c))
       (Some (resolve_radius (rows inp) (cols inp) (resolve_center (rows inp) (cols inp) c) r))"
  unfolding compose_patch_def Let_def
  by (simp only: resolve_center_Some resolve_radius_Some)

lemma create_composition_resolved:
  "create_composition s inp bg x y c r
   = create_composition s inp bg x y (Some (resolve_center (rows inp) (cols inp) c))
       (Some (resolve_radius (rows inp) (cols inp) (resolve_center (rows inp) (cols inp) c) r))"
  unfolding create_composition_def
  by (subst compose_patch_resolved) (rule refl)

lemma create_composition_radius_None:
  "create_composition s inp bg x y c None
   = create_composition s inp bg x y c
       (Some (resolve_radius (rows inp) (cols inp) (resolve_center (rows inp) (cols inp) c) None))"
  unfolding create_composition_def compose_patch_def Let_def
  by (simp only: resolve_radius_Some)

lemma binop_same_shape:
  "shape a = sh \<Longrightarrow> shape b = sh \<Longrightarrow>
   binop f a b = Inr (tabulate sh (\<lambda>i j. f (stretched a i j) (stretched b i j)))"
  by (cases sh) (simp add: binop_def bshape_def bdim_def)

lemma stretched_nth:
  assumes "shape a = (r, c)" "i < r" "j < c"
  shows "stretched a i j = elems a ! (i * c + j)"
  using assms by (auto simp: stretched_def)

lemma index_less: "i < (r::nat) \<Longrightarrow> j < c \<Longrightarrow> i * c + j < r * c"
proof -
  assume a: "i < r" "j < c"
  have "i * c + j < i * c + c" using a by simp
  also have "\<dots> = Suc i * c" by simp
  also have "\<dots> \<le> r * c" using a by (intro mult_le_mono1) simp
  finally show ?thesis .
qed

lemma tabulate_nth:
  assumes "i < r" "j < c"
  shows "elems (tabulate (r, c) f) ! (i * c + j) = f i j"
  using elems_tabulate_nth [of i "(r, c)" j f] assms by simp

lemma stretched_tabulate:
  assumes "i < r" "j < c"
  shows "stretched (tabulate (r, c) f) i j = f i j"
  using stretched_nth [of "tabulate (r, c) f" r c i j] tabulate_nth [OF assms, of f] assms
  by simp

lemma ma_radd_same_shape:
  assumes a: "shape a = (r, c)" and b: "shape (mdata b) = (r, c)" and m: "shape (mmask b) = (r, c)"
  shows "\<exists>P. ma_radd a b = Inr P \<and> shape (mdata P) = (r, c)
           \<and> (\<forall>i j. i < r \<and> j < c \<longrightarrow> elems (mdata P) ! (i * c + j)
                 = (if stretched (mmask b) i j then stretched a i j
                    else fadd (stretched a i j) (stretched (mdata b) i j)))"
proof -
  let ?res = "tabulate (r, c) (\<lambda>i j. fadd (stretched a i j) (stretched (mdata b) i j))"
  have bin: "binop fadd a (mdata b) = Inr ?res"
    by (rule binop_same_shape [OF a b])
  let ?P = "\<lparr>mdata = \<lparr>shape = (r, c),
                          elems = map2 (\<lambda>mk (d, r). if mk then d else r)
                                    (elems (broadcast_to (mmask b) (r, c)))
                                    (zip (elems (broadcast_to a (r, c))) (elems ?res))\<rparr>,
                  mmask = broadcast_to (mmask b) (r, c)\<rparr>"
  have P: "ma_radd a b = Inr ?P"
    by (simp add: ma_radd_def bin Let_def)
  have px: "elems (mdata ?P) ! (i * c + j)
        = (if stretched (mmask b) i j then stretched a i j
           else fadd (stretched a i j) (stretched (mdata b) i j))" if ij: "i < r" "j < c" for i j
  proof -
    have k: "i * c + j < r * c" using ij by (rule index_less)
    have 1: "elems (broadcast_to (mmask b) (r, c)) ! (i * c + j) = stretched (mmask b) i j"
      unfolding broadcast_to_def by (rule tabulate_nth [OF ij])
    have 2: "elems (broadcast_to a (r, c)) ! (i * c + j) = stretched a i j"
      unfolding broadcast_to_def by (rule tabulate_nth [OF ij])
    have 3: "elems ?res ! (i * c + j) = fadd (stretched a i j) (stretched (mdata b) i j)"
      by (rule tabulate_nth [OF ij])
    show ?thesis
      using k 1 2 3 by (simp add: broadcast_to_def)
  qed
  show ?thesis
    using P px by (intro exI [of _ ?P]) simp
qed


lemma shape_fade_input [simp]: "shape (fade_input w h cen rad) = (h, w)"
  by (simp add: fade_input_def ma_setitem_def)

lemma length_fade_input [simp]: "length (elems (fade_input w h cen rad)) = h * w"
  by (simp add: fade_input_def ma_setitem_def ma_le_def dist_from_center_def)

lemma length_disk_mask [simp]: "length (elems (disk_mask w h cen rad)) = h * w"
  by (simp add: disk_mask_def dist_from_center_def)

lemma slice_bounds_inside:
  "0 \<le> a \<Longrightarrow> a + int n \<le> int m \<Longrightarrow> slice_bounds m a (a + int n) = (nat a, nat a + n)"
  by (auto simp: slice_bounds_def Let_def prod_eq_iff)

lemma values_of_nth:
  assumes "k < rows a * cols a" "off a + rows a * cols a \<le> length (bufs s (buf a))"
  shows "values_of s a ! k = bufs s (buf a) ! (off a + k)"
  using assms by (simp add: values_of_def)

lemma length_values_of_fits:
  "off a + rows a * cols a \<le> length (bufs s (buf a)) \<Longrightarrow> length (values_of s a) = rows a * cols a"
  by (simp add: values_of_def)

lemma create_composition_pixels:
  assumes sq: "rows inp = n" "cols inp = n" "0 < n"
    and inpfit: "off inp + n * n \<le> length (bufs s (buf inp))"
    and al: "buf bg < fresh s"
    and fits: "off bg + rows bg * cols bg \<le> length (bufs s (buf bg))"
    and win: "0 \<le> x" "x + int n \<le> int (cols bg)" "0 \<le> y" "y + int n \<le> int (rows bg)"
  shows "fst (create_composition s inp bg x y c r) = Inr bg"
    and "\<And>i j. i < n \<Longrightarrow> j < n \<Longrightarrow>
         entry (snd (create_composition s inp bg x y c r)) bg (nat y + i) (nat x + j)
         = (if elems (disk_mask n n (resolve_center n n c)
                        (resolve_radius n n (resolve_center n n c) r)) ! (i * n + j)
            then fadd (fadd (fmul (entry s bg (nat y + i) (nat x + j))
                              (scaled (elems (fade_input n n (resolve_center n n c)
                                 (resolve_radius n n (resolve_center n n c) r)))
                                 (Fin 0, Fin 1) ! (i * n + j)))
                         (entry s inp i j)) (entry s inp i j)
            else fadd (fmul (entry s bg (nat y + i) (nat x + j))
                        (scaled (elems (fade_input n n (resolve_center n n c)
                           (resolve_radius n n (resolve_center n n c) r)))
                           (Fin 0, Fin 1) ! (i * n + j)))
                   (entry s inp i j))"
proof -
  define cen where "cen = resolve_center n n c"
  define rad where "rad = resolve_radius n n cen r"
  define V where "V = fade_input n n cen rad"
  define F where "F = scaled (elems V) (Fin 0, Fin 1)"
  define s1 where "s1 = snd (new_array s V)"
  define omf where "omf = fst (new_array s V)"
  have omf: "omf = \<lparr>buf = fresh s, off = 0, rows = n, cols = n\<rparr>"
    and b1: "bufs s1 = (bufs s)(fresh s := elems V)" and f1: "fresh s1 = Suc (fresh s)"
    by (simp_all add: omf_def s1_def new_array_simps V_def)
  have lV: "length (elems V) = n * n" by (simp add: V_def)
  have v1: "values_of s1 omf = elems V" by (simp add: values_of_def omf b1 lV)
  have ne: "values_of s1 omf \<noteq> []" using lV sq(3) v1 by auto
  define resc where "resc = \<lparr>buf = fresh s1, off = 0, rows = n, cols = n\<rparr>"
  define s2 where "s2 = s1\<lparr>bufs := (bufs s1)(fresh s1 := F), fresh := Suc (fresh s1)\<rparr>"
  have sc: "scale_2D s1 omf (Fin 0, Fin 1) = (Inr resc, s2)"
    using scale_2D_nonempty [OF ne, of "(Fin 0, Fin 1)"] unfolding v1
    by (simp add: resc_def s2_def F_def omf)
  have lF: "length F = n * n" by (simp add: F_def length_scaled lV)
  have rescL: "load s2 resc = \<lparr>shape = (n, n), elems = F\<rparr>"
    by (simp add: load_def values_of_def resc_def s2_def lF)
  have old2: "bufs s2 (buf bg) = bufs s (buf bg)"
    using al by (simp add: s2_def b1 f1)
  have R: "slice_bounds (rows bg) y (y + int n) = (nat y, nat y + n)"
    and C: "slice_bounds (cols bg) x (x + int n) = (nat x, nat x + n)"
    using win by (simp_all add: slice_bounds_inside)
  define bo where "bo = read_window s2 bg (nat y, nat y + n) (nat x, nat x + n)"
  have bo: "bo = tabulate (n, n) (\<lambda>i j. entry s bg (nat y + i) (nat x + j))"
    by (simp add: bo_def read_window_def entry_def old2)
  define faded where "faded = tabulate (n, n) (\<lambda>i j. fmul (stretched bo i j)
                                  (stretched \<lparr>shape = (n, n), elems = F\<rparr> i j))"
  have bin1: "binop fmul bo \<lparr>shape = (n, n), elems = F\<rparr> = Inr faded"
    unfolding faded_def by (rule binop_same_shape) (simp_all add: bo)
  define bfade where "bfade = tabulate (n, n) (\<lambda>i j. fadd (stretched faded i j)
                                  (stretched (load s inp) i j))"
  have bin2: "binop fadd faded (load s inp) = Inr bfade"
    unfolding bfade_def by (rule binop_same_shape) (simp_all add: faded_def sq)
  define ci :: "f64 marray" where "ci = \<lparr>mdata = load s inp,
      mmask = \<lparr>shape = (n, n), elems = map Not (elems (disk_mask n n cen rad))\<rparr>\<rparr>"
  obtain P where P: "ma_radd bfade ci = Inr P" and sP: "shape (mdata P) = (n, n)"
    and pP: "\<And>i j. i < n \<Longrightarrow> j < n \<Longrightarrow> elems (mdata P) ! (i * n + j)
                 = (if stretched (mmask ci) i j then stretched bfade i j
                    else fadd (stretched bfade i j) (stretched (mdata ci) i j))"
    using ma_radd_same_shape [of bfade n n ci]
    by (auto simp: bfade_def ci_def sq)
  have cp: "compose_patch s inp bg x y c r = (Inr P, s2)"
    unfolding compose_patch_unfold Let_def sq
    unfolding cen_def [symmetric] rad_def [symmetric] V_def [symmetric] case_prod_beta
      omf_def [symmetric] s1_def [symmetric] sc R C ci_def [symmetric]
    by (simp add: rescL bo_def [symmetric] bin1 bin2 P)
  obtain s3 where wok: "write_window s2 bg (nat y, nat y + n) (nat x, nat x + n) (mdata P)
             = (Inr (), s3)"
    by (simp add: write_window_def sP Let_def)
  have cc: "create_composition s inp bg x y c r = (Inr bg, s3)"
    unfolding create_composition_def cp prod.case sum.case sq R C
    by (simp add: wok)
  show "fst (create_composition s inp bg x y c r) = Inr bg" by (simp add: cc)
  fix i j assume ij: "i < n" "j < n"
  have k: "i * n + j < n * n" using ij by (rule index_less)
  have ri: "nat y + i < rows bg" and cj: "nat x + j < cols bg" using ij win by linarith+
  have fits2: "off bg + rows bg * cols bg \<le> length (bufs s2 (buf bg))"
    using fits old2 by simp
  have e3: "entry s3 bg (nat y + i) (nat x + j) = stretched (mdata P) i j"
    using write_window_entry [OF wok ri cj fits2] ij by simp
  have sP': "stretched (mdata P) i j = elems (mdata P) ! (i * n + j)"
    by (rule stretched_nth [OF sP ij])
  have m: "stretched (mmask ci) i j = (\<not> elems (disk_mask n n cen rad) ! (i * n + j))"
    using stretched_nth [of "mmask ci" n n i j] ij k by (simp add: ci_def)
  have a: "stretched (load s inp) i j = entry s inp i j"
  proof -
    have "stretched (load s inp) i j = values_of s inp ! (i * n + j)"
      using stretched_nth [of "load s inp" n n i j] ij by (simp add: sq load_def)
    also have "\<dots> = bufs s (buf inp) ! (off inp + (i * n + j))"
      using values_of_nth [of "i * n + j" inp s] k inpfit by (simp add: sq)
    finally show ?thesis by (simp add: entry_def sq add.assoc)
  qed
  have f: "stretched \<lparr>shape = (n, n), elems = F\<rparr> i j = F ! (i * n + j)"
    using stretched_nth [of "\<lparr>shape = (n, n), elems = F\<rparr>" n n i j] ij by simp
  have b: "stretched bo i j = entry s bg (nat y + i) (nat x + j)"
    unfolding bo by (rule stretched_tabulate [OF ij])
  have bf: "stretched bfade i j
            = fadd (fmul (entry s bg (nat y + i) (nat x + j)) (F ! (i * n + j))) (entry s inp i j)"
    unfolding bfade_def faded_def
    by (simp add: stretched_tabulate [OF ij] a f b)
  show "entry (snd (create_composition s inp bg x y c r)) bg (nat y + i) (nat x + j)
         = (if elems (disk_mask n n (resolve_center n n c)
                        (resolve_radius n n (resolve_center n n c) r)) ! (i * n + j)
            then fadd (fadd (fmul (entry s bg (nat y + i) (nat x + j))
                              (scaled (elems (fade_input n n (resolve_center n n c)
                                 (resolve_radius n n (resolve_center n n c) r)))
                                 (Fin 0, Fin 1) ! (i * n + j)))
                         (entry s inp i j)) (entry s inp i j)
            else fadd (fmul (entry s bg (nat y + i) (nat x + j))
                        (scaled (elems (fade_input n n (resolve_center n n c)
                           (resolve_radius n n (resolve_center n n c) r)))
                           (Fin 0, Fin 1) ! (i * n + j)))
                   (entry s inp i j))"
    unfolding cc snd_conv e3 sP' pP [OF ij] m bf
    by (simp add: ci_def a F_def V_def rad_def cen_def)
qed




section \<open>\<^verbatim>\<open>create_new_dataset\<close> with rotation\<close>

text \<open>
  Claim C2, which the program does not meet. \<^verbatim>\<open>create_new_dataset\<close> calls
  \<^verbatim>\<open>rotate_image(image, rot=degree)\<close>, and \<^verbatim>\<open>rotate_image\<close> has no parameter \<^verbatim>\<open>rot\<close>: for
  every dataset with at least one row whose length is a perfect square, every list of
  offsets and every degree, the call with rotation enabled raises TypeError, at the first
  row, before anything is rotated.
\<close>

theorem rotate_enabled_raises:
  assumes "0 < rows ds"
    and "nat \<lfloor>sqrt (real (cols ds))\<rfloor> * nat \<lfloor>sqrt (real (cols ds))\<rfloor> = cols ds"
  shows "fst (create_new_dataset sk s ds offsets True degree) = Inl TypeError"
proof -
  have rows: "[0..<rows ds] = 0 # [1..<rows ds]"
    using assms(1) by (simp add: upt_conv_Cons)
  have call: "rotate_image_call sk s' img [(''rot'', degree)] = (Inl TypeError, s')" for s' img
    by (simp add: rotate_image_call_def)
  have row: "dataset_row sk ds nd offsets True degree i s' = (Inl TypeError, s')" for nd i s'
    using assms(2) by (simp add: dataset_row_def Let_def call)
  show ?thesis
    by (simp add: create_new_dataset_def Let_def rows row split: prod.splits)
qed

theorem rotate_enabled_raises_witness:
  "0 < rows ex_dataset
   \<and> nat \<lfloor>sqrt (real (cols ex_dataset))\<rfloor> * nat \<lfloor>sqrt (real (cols ex_dataset))\<rfloor> = cols ex_dataset
   \<and> fst (create_new_dataset (\<lambda>a k. a) ex_state ex_dataset [(0, 0)] True (Some 1)) = Inl TypeError"
  using rotate_enabled_raises [of ex_dataset "\<lambda>a k. a" ex_state "[(0, 0)]" "Some 1"]
  by (simp add: ex_dataset_def)

section \<open>The shape of the noise field\<close>

lemma floor_half: "\<lfloor>real d / 2\<rfloor> = int (d div 2)"
proof -
  have "\<lfloor>real d / real 2\<rfloor> = int (d div 2)" by (rule floor_divide_of_nat_eq)
  then show ?thesis by simp
qed

lemma ceiling_half: "\<lceil>real d / 2\<rceil> = int ((d + 1) div 2)"
proof -
  have "real d / 2 = real_of_int (int d) / real_of_int 2" by simp
  then have "\<lceil>real d / 2\<rceil> = - (- int d div 2)"
    using ceiling_divide_eq_div [of "int d" 2] by simp
  also have "\<dots> = int ((d + 1) div 2)" by linarith
  finally show ?thesis .
qed

lemma length_upto: "length [a..b] = nat (b - a + 1)"
  by simp

lemma length_freq_axis: "0 < d \<Longrightarrow> length (freq_axis d) = d"
  unfolding freq_axis_def Let_def floor_half ceiling_half
  by (simp add: length_upto)


lemma size_of_repmat: "size_of (repmat xs m n) = m * (n * length xs)"
  by (simp add: size_of_def repmat_def)

lemma reshape_ok:
  "fst sh * snd sh = size_of a \<Longrightarrow> reshape a sh = Inr \<lparr>shape = sh, elems = elems a\<rparr>"
  by (simp add: reshape_def)

lemma shape_transpose_arr [simp]: "shape (transpose_arr a) = (snd (shape a), fst (shape a))"
  by (simp add: transpose_arr_def)

lemma binop_incompatible:
  "bshape (shape a) (shape b) = None \<Longrightarrow> binop f a b = Inl ValueError"
  by (simp add: binop_def)

text \<open>
  Claim C3, which the program does not meet. \<open>u\<close> is reshaped to \<open>dim_array\<close> and then
  transposed, \<open>v\<close> is reshaped to \<open>dim_array\<close>, so for \<open>dim_array = (d0, d1)\<close> their shapes
  are \<open>(d1, d0)\<close> and \<open>(d0, d1)\<close>: when \<open>d0\<close> and \<open>d1\<close> differ and both exceed 1 the sum
  of line 62 cannot be broadcast, and the call raises ValueError, leaving the state as
  it was. \<open>(10, 5)\<close>, the example of the docstring, is such a pair.
\<close>

theorem create_2D_noise_non_square:
  assumes "1 < d0" and "1 < d1" and "d0 \<noteq> d1"
  shows "create_2D_noise s (d0, d1) beta = (Inl ValueError, s)"
proof -
  have l0: "length (freq_axis d0) = d0" and l1: "length (freq_axis d1) = d1"
    using assms by (simp_all add: length_freq_axis)
  have u: "reshape (repmat (freq_axis d0) 1 d1) (d0, d1)
           = Inr \<lparr>shape = (d0, d1), elems = elems (repmat (freq_axis d0) 1 d1)\<rparr>"
    by (rule reshape_ok) (simp add: size_of_repmat l0)
  have v: "reshape (repmat (freq_axis d1) d0 1) (d0, d1)
           = Inr \<lparr>shape = (d0, d1), elems = elems (repmat (freq_axis d1) d0 1)\<rparr>"
    by (rule reshape_ok) (simp add: size_of_repmat l1)
  have "bshape (d1, d0) (d0, d1) = None"
    using assms by (simp add: bshape_def bdim_def)
  then have bad: "binop fadd
            (amap (\<lambda>x. fpow x (Fin 2))
               (transpose_arr \<lparr>shape = (d0, d1), elems = elems (repmat (freq_axis d0) 1 d1)\<rparr>))
            (amap (\<lambda>x. fpow x (Fin 2))
               \<lparr>shape = (d0, d1), elems = elems (repmat (freq_axis d1) d0 1)\<rparr>)
          = Inl ValueError"
    by (intro binop_incompatible) simp
  show ?thesis
    unfolding create_2D_noise_def fst_conv snd_conv u v Let_def
    by (simp only: sum.case bad)
qed

theorem create_2D_noise_non_square_witness:
  "(1::nat) < 10 \<and> (1::nat) < 5 \<and> (10::nat) \<noteq> 5
   \<and> create_2D_noise ex_state (10, 5) (Fin (- 1)) = (Inl ValueError, ex_state)"
  using create_2D_noise_non_square [of 10 5 ex_state "Fin (- 1)"]
  by simp

section \<open>The shape of the new dataset\<close>

lemma ifft2_ok:
  assumes "shape a = (d, d)" and "0 < d"
  shows "\<exists>x. ifft2 a = Inr x \<and> shape x = (d, d)"
  using assms by (simp add: ifft2_def Let_def)

lemma create_2D_noise_square:
  assumes "0 < d"
  shows "fst (create_2D_noise s (d, d) beta) = Inr \<lparr>buf = fresh s, off = 0, rows = d, cols = d\<rparr>
       \<and> fresh (snd (create_2D_noise s (d, d) beta)) = Suc (fresh s)
       \<and> length (bufs (snd (create_2D_noise s (d, d) beta)) (fresh s)) = d * d"
proof -
  have l: "length (freq_axis d) = d" using assms by (simp add: length_freq_axis)
  have u: "reshape (repmat (freq_axis d) 1 d) (d, d)
           = Inr \<lparr>shape = (d, d), elems = elems (repmat (freq_axis d) 1 d)\<rparr>"
    by (rule reshape_ok) (simp add: size_of_repmat l)
  have v: "reshape (repmat (freq_axis d) d 1) (d, d)
           = Inr \<lparr>shape = (d, d), elems = elems (repmat (freq_axis d) d 1)\<rparr>"
    by (rule reshape_ok) (simp add: size_of_repmat l)
  define U where "U = amap (\<lambda>x. fpow x (Fin 2))
               (transpose_arr \<lparr>shape = (d, d), elems = elems (repmat (freq_axis d) 1 d)\<rparr>)"
  define V where "V = amap (\<lambda>x. fpow x (Fin 2))
               \<lparr>shape = (d, d), elems = elems (repmat (freq_axis d) d 1)\<rparr>"
  have sU: "shape U = (d, d)" and sV: "shape V = (d, d)" by (simp_all add: U_def V_def)
  obtain uv where uv: "binop fadd U V = Inr uv" and suv: "shape uv = (d, d)"
    using binop_same_shape [OF sU sV, of fadd] by simp
  define S where "S = amap (\<lambda>x. of_real_c (fpow x (Fin (1 / 2))))
        (amap (\<lambda>x. if isinf x then Fin 0 else x) (amap (\<lambda>x. fpow x (fdiv beta (Fin 2))) uv))"
  define s1 where "s1 = snd (random_sample s (d * d))"
  define P where "P = amap (\<lambda>p. cadd (of_real_c (fcos (fmul (rnd (2 * pi)) p)))
                            (cmul (Fin 0, Fin 1) (of_real_c (fsin (fmul (rnd (2 * pi)) p)))))
               \<lparr>shape = (d, d), elems = fst (random_sample s (d * d))\<rparr>"
  have sS: "shape S = (d, d)" and sP: "shape P = (d, d)" by (simp_all add: S_def P_def suv)
  obtain sp where sp: "binop cmul S P = Inr sp" and ssp: "shape sp = (d, d)"
    using binop_same_shape [OF sS sP, of cmul] by simp
  obtain x where x: "ifft2 sp = Inr x" and sx: "shape x = (d, d)"
    using ifft2_ok [OF ssp assms] by blast
  have lx: "length (elems x) = d * d"
    using x ssp assms by (auto simp: ifft2_def Let_def)
  have fr: "fresh s1 = fresh s" by (simp add: s1_def random_sample_def)
  have eq: "create_2D_noise s (d, d) beta = (Inr (fst (new_array s1 (amap fst x))), snd (new_array s1 (amap fst x)))"
    unfolding create_2D_noise_def fst_conv snd_conv u v Let_def sum.case case_prod_beta
    unfolding U_def [symmetric] V_def [symmetric] uv sum.case
    unfolding S_def [symmetric] P_def [symmetric] s1_def [symmetric] sp sum.case x
    by (rule refl)
  show ?thesis
    unfolding eq by (simp add: new_array_def alloc_def sx lx fr)
qed


lemma scale_2D_error: "fst (scale_2D s a rg) = Inl e \<Longrightarrow> e = ValueError"
  by (cases "values_of s a = []") (simp_all add: scale_2D_nonempty scale_2D_empty)

lemma scale_2D_errorD: "scale_2D s a rg = (Inl e, s') \<Longrightarrow> e = ValueError"
  using scale_2D_error [of s a rg e] by simp

lemma binop_error: "binop f a b = Inl e \<Longrightarrow> e = ValueError"
  by (simp add: binop_def split: option.splits)

lemma ma_radd_error: "ma_radd a b = Inl e \<Longrightarrow> e = ValueError"
  by (auto simp: ma_radd_def Let_def split: sum.splits dest: binop_error)

lemma write_window_error: "fst (write_window s a rs cs v) = Inl e \<Longrightarrow> e = ValueError"
  by (simp add: write_window_def Let_def split: if_splits)

lemma compose_patch_error: "fst (compose_patch s inp bg x y c r) = Inl e \<Longrightarrow> e = ValueError"
  unfolding compose_patch_unfold Let_def
  by (auto split: prod.splits sum.splits
      dest: binop_error ma_radd_error scale_2D_errorD)

lemma create_composition_error:
  assumes "fst (create_composition s inp bg x y c r) = Inl e"
  shows "e = ValueError"
proof (cases "fst (compose_patch s inp bg x y c r)")
  case (Inl e')
  then have "e' = ValueError" by (rule compose_patch_error)
  moreover have "fst (create_composition s inp bg x y c r) = Inl e'"
    using Inl by (auto simp: create_composition_def split: prod.splits)
  ultimately show ?thesis using assms by simp
next
  case (Inr p)
  then obtain s2 where cp: "compose_patch s inp bg x y c r = (Inr p, s2)"
    by (cases "compose_patch s inp bg x y c r") auto
  obtain w s3 where ww: "write_window s2 bg (slice_bounds (rows bg) y (y + int (rows inp)))
             (slice_bounds (cols bg) x (x + int (cols inp))) (mdata p) = (w, s3)"
    by (cases "write_window s2 bg (slice_bounds (rows bg) y (y + int (rows inp)))
             (slice_bounds (cols bg) x (x + int (cols inp))) (mdata p)") auto
  show ?thesis
  proof (cases w)
    case (Inl e')
    then have "fst (write_window s2 bg (slice_bounds (rows bg) y (y + int (rows inp)))
             (slice_bounds (cols bg) x (x + int (cols inp))) (mdata p)) = Inl e'"
      using ww by simp
    then have "e' = ValueError" by (rule write_window_error)
    moreover have "fst (create_composition s inp bg x y c r) = Inl e'"
      using Inl by (simp add: create_composition_def cp ww)
    ultimately show ?thesis using assms by simp
  next
    case (Inr u)
    then have "fst (create_composition s inp bg x y c r) = Inr bg"
      by (simp add: create_composition_def cp ww)
    then show ?thesis using assms by simp
  qed
qed

lemma create_composition_length:
  assumes ok: "fst (create_composition s inp bg x y c r) = Inr res" and al: "buf bg < fresh s"
  shows "length (bufs (snd (create_composition s inp bg x y c r)) (buf bg))
         = length (bufs s (buf bg))"
proof -
  obtain patch :: "f64 marray" where
    w: "write_window (snd (compose_patch s inp bg x y c r)) bg
               (slice_bounds (rows bg) y (y + int (rows inp)))
               (slice_bounds (cols bg) x (x + int (cols inp))) (mdata patch)
             = (Inr (), snd (create_composition s inp bg x y c r))"
    using create_composition_success(2) [OF ok] by auto
  show ?thesis
    by (simp add: write_window_bufs [OF w] compose_patch_bufs_old [OF al])
qed

lemma randint_cases:
  "randint s lo hi = (Inl ValueError, s)
   \<or> (\<exists>k s'. randint s lo hi = (Inr k, s') \<and> bufs s' = bufs s \<and> fresh s' = fresh s)"
  by (simp add: randint_def)

lemma assign_row_mismatch:
  "length v \<noteq> cols a \<Longrightarrow> length v \<noteq> 1 \<Longrightarrow> assign_row s a i v = (Inl ValueError, s)"
  by (simp add: assign_row_def)

lemma dataset_row_mismatch:
  assumes nd: "cols nd = cols ds * 4" and n: "cols ds \<noteq> 784"
  shows "fst (dataset_row sk ds nd offsets False degree i s) = Inl ValueError"
proof (cases "nat \<lfloor>sqrt (real (cols ds))\<rfloor> * nat \<lfloor>sqrt (real (cols ds))\<rfloor> = cols ds")
  case False
  then show ?thesis by (simp add: dataset_row_def Let_def)
next
  case sq: True
  define img where "img = \<lparr>buf = buf ds, off = off ds + i * cols ds,
      rows = nat \<lfloor>sqrt (real (cols ds))\<rfloor>, cols = nat \<lfloor>sqrt (real (cols ds))\<rfloor>\<rparr>"
  define N where "N = \<lparr>buf = fresh s, off = 0, rows = 56, cols = 56::nat\<rparr>"
  define s2 where "s2 = snd (create_2D_noise s (56, 56) (Fin (- 1)))"
  have noise: "create_2D_noise s (56, 56) (Fin (- 1)) = (Inr N, s2)"
    and f2: "fresh s2 = Suc (fresh s)" and l2: "length (bufs s2 (fresh s)) = 56 * 56"
    using create_2D_noise_square [of 56 s "Fin (- 1)"]
    by (simp_all add: N_def s2_def prod_eq_iff)
  have vN: "values_of s2 N = bufs s2 (fresh s)"
    using l2 by (simp add: values_of_def N_def)
  have neN: "values_of s2 N \<noteq> []" using vN l2 by auto
  define B where "B = \<lparr>buf = fresh s2, off = 0, rows = 56, cols = 56::nat\<rparr>"
  define s3 where "s3 = s2\<lparr>bufs := (bufs s2)(fresh s2 := scaled (values_of s2 N) (Fin 0, Fin 255)),
                           fresh := Suc (fresh s2)\<rparr>"
  have sc: "scale_2D s2 N (Fin 0, Fin 255) = (Inr B, s3)"
    using scale_2D_nonempty [OF neN, of "(Fin 0, Fin 255)"] by (simp add: B_def s3_def N_def)
  have l3: "length (bufs s3 (buf B)) = 3136"
    using l2 by (simp add: s3_def B_def length_scaled vN)
  have aB: "buf B < fresh s3" by (simp add: s3_def B_def)
  have body: "dataset_row sk ds nd offsets False degree i s =
      (case randint s3 0 (int (length offsets)) of
          (Inl e, s4) \<Rightarrow> (Inl e, s4)
        | (Inr rand_offset, s4) \<Rightarrow>
       (case composition_of_row s4 img B offsets rand_offset of
          (Inl e, s5) \<Rightarrow> (Inl e, s5)
        | (Inr result, s5) \<Rightarrow>
            let (f, s6) = flatten s5 result
            in assign_row s6 nd i (bufs s6 f)))"
    using sq by (simp add: dataset_row_def Let_def noise sc img_def [symmetric])
  from randint_cases [of s3 0 "int (length offsets)"]
  show ?thesis
  proof (elim disjE exE conjE)
    assume "randint s3 0 (int (length offsets)) = (Inl ValueError, s3)"
    then show ?thesis by (simp add: body)
  next
    fix k s4
    assume r: "randint s3 0 (int (length offsets)) = (Inr k, s4)"
      and b4: "bufs s4 = bufs s3" and f4: "fresh s4 = fresh s3"
    obtain res s5 where c: "composition_of_row s4 img B offsets k = (res, s5)"
      by (cases "composition_of_row s4 img B offsets k") auto
    show ?thesis
    proof (cases res)
      case (Inl e)
      then have "fst (create_composition s4 img B (fst (offsets ! nat k)) (snd (offsets ! nat k))
                  None None) = Inl e"
        using c by (simp add: composition_of_row_def)
      then have "e = ValueError" by (rule create_composition_error)
      then show ?thesis using Inl by (simp add: body r c)
    next
      case (Inr result)
      have ok: "fst (create_composition s4 img B (fst (offsets ! nat k)) (snd (offsets ! nat k))
                  None None) = Inr result"
        and s5: "s5 = snd (create_composition s4 img B (fst (offsets ! nat k))
                  (snd (offsets ! nat k)) None None)"
        using c Inr by (simp_all add: composition_of_row_def)
      have rB: "result = B" using ok by (rule create_composition_success(1))
      have l5: "length (bufs s5 (buf B)) = 3136"
        unfolding s5 using create_composition_length [OF ok] aB f4 b4 l3 by simp
      have "length (values_of s5 B) = 3136"
        using l5 by (simp add: values_of_def B_def)
      then have "assign_row s6 nd i (values_of s5 B) = (Inl ValueError, s6)" for s6
        using nd n by (intro assign_row_mismatch) auto
      then show ?thesis
        by (simp add: body r c Inr rB flatten_def alloc_def)
    qed
  qed
qed

text \<open>
  Claim C4, which the program does not meet. The background is always the \<open>56 \<times> 56\<close>
  default of \<^verbatim>\<open>create_2D_noise\<close>, so the flattened frame has 3136 values whatever the
  size of the images, while a row of \<^verbatim>\<open>new_dataset\<close> has \<open>4 * N\<close>: for every dataset with
  at least one row and a row length \<open>N\<close> other than 784, without rotation, the call raises
  ValueError (at the latest when the first frame is assigned to its row).
\<close>

theorem create_new_dataset_shape_mismatch:
  assumes "0 < rows ds" and "cols ds \<noteq> 784"
  shows "fst (create_new_dataset sk s ds offsets False degree) = Inl ValueError"
proof -
  have rows: "[0..<rows ds] = 0 # [1..<rows ds]"
    using assms(1) by (simp add: upt_conv_Cons)
  define nd where "nd = fst (new_array s \<lparr>shape = (rows ds, cols ds * 4),
                               elems = replicate (rows ds * (cols ds * 4)) (Fin 0)\<rparr>)"
  define s1 where "s1 = snd (new_array s \<lparr>shape = (rows ds, cols ds * 4),
                               elems = replicate (rows ds * (cols ds * 4)) (Fin 0)\<rparr>)"
  have cnd: "cols nd = cols ds * 4" by (simp add: nd_def new_array_simps)
  obtain s2 where row: "dataset_row sk ds nd offsets False degree 0 s1 = (Inl ValueError, s2)"
    using dataset_row_mismatch [OF cnd assms(2), of sk offsets degree 0 s1]
    by (cases "dataset_row sk ds nd offsets False degree 0 s1") auto
  show ?thesis
    unfolding create_new_dataset_def Let_def case_prod_beta nd_def [symmetric] s1_def [symmetric] rows
    by (simp add: row)
qed

theorem create_new_dataset_shape_mismatch_witness:
  "0 < rows ex_dataset \<and> cols ex_dataset \<noteq> 784
   \<and> fst (create_new_dataset (\<lambda>a k. a) ex_state ex_dataset [(0, 0)] False None) = Inl ValueError"
  using create_new_dataset_shape_mismatch [of ex_dataset "\<lambda>a k. a" ex_state "[(0, 0)]" None]
  by (simp add: ex_dataset_def)

end
